theory Spec2Isabelle
  imports Main
begin

section \<open>Rule strings: \<open>NamedParam.make\<close>\<close>

text \<open>
  The exceptions the engine can raise: \<open>ValueError\<close> from a tuple unpacking whose
  right-hand side has the wrong number of elements, \<open>IndexError\<close> from \<open>pop()\<close> or
  \<open>[-1]\<close> on an empty list, and \<open>CSTValidationError\<close> from the tree library when a node
  it is asked to construct is not valid.
\<close>

datatype error = ValueError | IndexError | CSTValidationError

record NamedParam =
  name :: string
  module :: string
  type_name :: string

record State =
  annotate_optionals :: "NamedParam list"
  annotate_named_params :: "NamedParam list"
  annotate_magics :: bool
  annotate_imprecise_magics :: bool
  none_return :: bool
  bool_param :: bool
  seen_return_statement :: "bool list"
  seen_raise_statement :: "bool list"
  seen_yield :: "bool list"
  in_lambda :: bool

text \<open>
  The command object: its \<open>state\<close>, and the import requests it has handed to
  \<open>AddImportsVisitor.add_needed_import\<close> through its codemod context, in the order of
  the calls, as (module, symbol) pairs.
\<close>

record AutotypeCommand =
  state :: State
  needed_imports :: "(string \<times> string) list"

text \<open>
  Python's \<open>str.split(sep)\<close> for a one-character separator: the string is cut at every
  occurrence of the separator, and the result is never empty (\<open>"".split(":") == [""]\<close>).
\<close>

fun split :: "char \<Rightarrow> string \<Rightarrow> string list" where
  "split sep [] = [[]]"
| "split sep (c # cs) =
     (if c = sep then [] # split sep cs
      else (case split sep cs of
              [] \<Rightarrow> [[c]]
            | w # ws \<Rightarrow> (c # w) # ws))"

text \<open>
  Python's \<open>str.rsplit(sep, maxsplit=1)\<close> for a one-character separator: one cut, at the
  last occurrence of the separator; a string without the separator comes back whole.
\<close>

definition rsplit1 :: "char \<Rightarrow> string \<Rightarrow> string list" where
  "rsplit1 sep s =
     (if sep \<in> set s
      then [rev (tl (dropWhile (\<lambda>c. c \<noteq> sep) (rev s))),
            rev (takeWhile (\<lambda>c. c \<noteq> sep) (rev s))]
      else [s])"

text \<open>
  \<open>NamedParam.make\<close>: both assignments unpack into exactly two names, so each raises
  \<open>ValueError\<close> unless its right-hand side has exactly two elements.
\<close>

definition make :: "string \<Rightarrow> error + NamedParam" where
  "make input =
     (case split (CHR '':'') input of
        [n, type_path] \<Rightarrow>
          (case rsplit1 (CHR ''.'') type_path of
             [m, t] \<Rightarrow> Inr \<lparr>name = n, module = m, type_name = t\<rparr>
           | _ \<Rightarrow> Inl ValueError)
      | _ \<Rightarrow> Inl ValueError)"

section \<open>The engine's state and its construction\<close>

definition SIMPLE_MAGICS :: "(string \<times> string) list" where
  "SIMPLE_MAGICS =
     [(''__str__'', ''str''),
      (''__repr__'', ''str''),
      (''__len__'', ''int''),
      (''__init__'', ''None''),
      (''__del__'', ''None''),
      (''__bool__'', ''bool''),
      (''__bytes__'', ''bytes''),
      (''__format__'', ''str''),
      (''__contains__'', ''bool''),
      (''__complex__'', ''complex''),
      (''__int__'', ''int''),
      (''__float__'', ''float''),
      (''__index__'', ''int'')]"

definition IMPRECISE_MAGICS :: "(string \<times> (string \<times> string)) list" where
  "IMPRECISE_MAGICS =
     [(''__iter__'', (''typing'', ''Iterator'')),
      (''__reversed__'', (''typing'', ''Iterator'')),
      (''__await__'', (''typing'', ''Iterator''))]"

text \<open>The list comprehension \<open>[NamedParam.make(s) for s in rules]\<close>: the first failure propagates.\<close>

fun make_all :: "string list \<Rightarrow> error + NamedParam list" where
  "make_all [] = Inr []"
| "make_all (s # ss) =
     (case make s of
        Inl e \<Rightarrow> Inl e
      | Inr p \<Rightarrow>
          (case make_all ss of
             Inl e \<Rightarrow> Inl e
           | Inr ps \<Rightarrow> Inr (p # ps)))"

text \<open>
  \<open>[NamedParam.make(s) for s in arg] if arg else []\<close>: \<open>None\<close> and the empty sequence are
  both falsy.
\<close>

definition rules_of :: "string list option \<Rightarrow> error + NamedParam list" where
  "rules_of arg =
     (case arg of
        None \<Rightarrow> Inr []
      | Some ss \<Rightarrow> if ss = [] then Inr [] else make_all ss)"

text \<open>
  \<open>AutotypeCommand.__init__\<close>: the keyword arguments of \<open>State(...)\<close> are evaluated in the
  order written, the Optional rules first; the three stacks get their seed frame and the
  lambda flag starts false.
\<close>

definition init ::
  "string list option \<Rightarrow> string list option \<Rightarrow> bool \<Rightarrow> bool \<Rightarrow> bool \<Rightarrow> bool
     \<Rightarrow> error + AutotypeCommand" where
  "init annotate_optional annotate_named_param magics imprecise_magics none_ret bool_par =
     (case rules_of annotate_optional of
        Inl e \<Rightarrow> Inl e
      | Inr optionals \<Rightarrow>
          (case rules_of annotate_named_param of
             Inl e \<Rightarrow> Inl e
           | Inr named \<Rightarrow>
               Inr \<lparr>state =
                      \<lparr>annotate_optionals = optionals,
                       annotate_named_params = named,
                       annotate_magics = magics,
                       annotate_imprecise_magics = imprecise_magics,
                       none_return = none_ret,
                       bool_param = bool_par,
                       seen_return_statement = [False],
                       seen_raise_statement = [False],
                       seen_yield = [False],
                       in_lambda = False\<rparr>,
                    needed_imports = []\<rparr>))"

section \<open>The syntax tree\<close>

text \<open>
  The nodes of the concrete syntax tree, as far as the visitor can tell them apart.
  Expressions: a \<open>Name\<close> (the literals \<open>None\<close>, \<open>True\<close> and \<open>False\<close> are names), a
  \<open>Lambda\<close> with its parameters and body, a \<open>Yield\<close> with its optional value, a
  \<open>Subscript\<close> with its value and slice elements, and every other expression with a
  label and its sub-expressions in visiting order. A \<open>Param\<close> has a name, an optional
  annotation and an optional default; the parameter lists of one \<open>Parameters\<close> node
  are kept as one list in visiting order. The wrappers \<open>Annotation\<close>, \<open>Decorator\<close>,
  \<open>SubscriptElement\<close> and \<open>Index\<close> have no handler and are not represented.
\<close>

datatype expr =
    Name string
  | Lambda "param list" expr
  | Yield "expr option"
  | Subscript expr "expr list"
  | OtherExpr string "expr list"
and param =
    Param string "expr option" "expr option"

text \<open>
  Statements: a function definition (decorators, name, parameters, return annotation,
  body), \<open>return\<close> with its optional value, \<open>raise\<close> with its optional exception and
  cause, any other simple statement with its expressions, and any other compound
  statement (\<open>if\<close>, \<open>while\<close>, \<open>for\<close>, \<open>try\<close>, \<open>with\<close>, \<open>class\<close>) with its children in visiting
  order, an expression child being wrapped as a simple statement.
\<close>

datatype stmt =
    FunctionDefStmt funcdef
  | Return "expr option"
  | Raise "expr option" "expr option"
  | SimpleStmt "expr list"
  | CompoundStmt "stmt list"
and funcdef =
    FunctionDef "expr list" string "param list" "expr option" "stmt list"

section \<open>Node validation\<close>

text \<open>
  The tree library validates every node it constructs and raises \<open>CSTValidationError\<close>
  on one it refuses. The nodes of a parsed tree have passed, and a node rebuilt during
  the traversal passes again unless the visitor has changed what its check reads. The
  visitor builds names and attaches annotations, so two checks are written out.
  \<open>Name(value=v)\<close> refuses the empty value and a value for which \<open>str.isidentifier()\<close> is
  false: the first character must be \<open>_\<close> or have the Unicode property \<open>XID_Start\<close>, the
  others \<open>XID_Continue\<close>. Characters are code points below 256 here; among them
  \<open>XID_Start\<close> holds of the ASCII letters and of the letters of Latin-1 (U+00AA, U+00B5,
  U+00BA, U+00C0 to U+00FF without the signs U+00D7 and U+00F7), and \<open>XID_Continue\<close> of
  these, the digits, \<open>_\<close> and U+00B7. \<open>Lambda(params=ps, body=b)\<close> refuses a parameter that
  carries an annotation.
\<close>

definition xid_start :: "char \<Rightarrow> bool" where
  "xid_start ch \<longleftrightarrow>
     (let k = (of_char ch :: nat)
      in (65 \<le> k \<and> k \<le> 90) \<or> (97 \<le> k \<and> k \<le> 122)
         \<or> k = 170 \<or> k = 181 \<or> k = 186
         \<or> (192 \<le> k \<and> k \<le> 214) \<or> (216 \<le> k \<and> k \<le> 246) \<or> (248 \<le> k \<and> k \<le> 255))"

definition xid_continue :: "char \<Rightarrow> bool" where
  "xid_continue ch \<longleftrightarrow>
     (let k = (of_char ch :: nat)
      in xid_start ch \<or> (48 \<le> k \<and> k \<le> 57) \<or> k = 95 \<or> k = 183)"

fun isidentifier :: "string \<Rightarrow> bool" where
  "isidentifier [] = False"
| "isidentifier (ch # s) = ((xid_start ch \<or> ch = CHR ''_'') \<and> list_all xid_continue s)"

definition new_Name :: "string \<Rightarrow> error + expr" where
  "new_Name v =
     (if v = [] then Inl CSTValidationError
      else if \<not> isidentifier v then Inl CSTValidationError
      else Inr (Name v))"

fun annotation_of :: "param \<Rightarrow> expr option" where
  "annotation_of (Param n annotation default_value) = annotation"

definition new_Lambda :: "param list \<Rightarrow> expr \<Rightarrow> error + expr" where
  "new_Lambda params body =
     (if list_ex (\<lambda>p. annotation_of p \<noteq> None) params then Inl CSTValidationError
      else Inr (Lambda params body))"

section \<open>The visitor's handlers\<close>

text \<open>
  Where a handler builds a name from a literal of the source or from one of the two
  tables, the name is an identifier (lemma \<open>literal_names_valid\<close> below) and the node is
  written directly. The one name built from an argument of the command is the rule's
  type name in \<open>_annotate_param\<close>.
\<close>

definition visit_FunctionDef :: "AutotypeCommand \<Rightarrow> AutotypeCommand" where
  "visit_FunctionDef c =
     c\<lparr>state := (state c)
        \<lparr>seen_return_statement := seen_return_statement (state c) @ [False],
         seen_raise_statement := seen_raise_statement (state c) @ [False],
         seen_yield := seen_yield (state c) @ [False]\<rparr>\<rparr>"

text \<open>\<open>xs[-1] = True\<close>: an \<open>IndexError\<close> on the empty list.\<close>

definition set_last_True :: "bool list \<Rightarrow> error + bool list" where
  "set_last_True xs =
     (if xs = [] then Inl IndexError else Inr (xs[length xs - 1 := True]))"

text \<open>\<open>xs.pop()\<close>: the last element and the list without it, an \<open>IndexError\<close> on the empty list.\<close>

definition pop :: "'a list \<Rightarrow> error + ('a \<times> 'a list)" where
  "pop xs = (if xs = [] then Inl IndexError else Inr (last xs, butlast xs))"

text \<open>\<open>visit_Return\<close> reads the node's \<open>value\<close> only, which is what it is given here.\<close>

definition visit_Return :: "AutotypeCommand \<Rightarrow> expr option \<Rightarrow> error + AutotypeCommand" where
  "visit_Return c node_value =
     (if node_value \<noteq> None
      then (case set_last_True (seen_return_statement (state c)) of
              Inl e \<Rightarrow> Inl e
            | Inr xs \<Rightarrow> Inr (c\<lparr>state := (state c)\<lparr>seen_return_statement := xs\<rparr>\<rparr>))
      else Inr c)"

definition visit_Raise :: "AutotypeCommand \<Rightarrow> error + AutotypeCommand" where
  "visit_Raise c =
     (case set_last_True (seen_raise_statement (state c)) of
        Inl e \<Rightarrow> Inl e
      | Inr xs \<Rightarrow> Inr (c\<lparr>state := (state c)\<lparr>seen_raise_statement := xs\<rparr>\<rparr>))"

definition visit_Yield :: "AutotypeCommand \<Rightarrow> error + AutotypeCommand" where
  "visit_Yield c =
     (case set_last_True (seen_yield (state c)) of
        Inl e \<Rightarrow> Inl e
      | Inr xs \<Rightarrow> Inr (c\<lparr>state := (state c)\<lparr>seen_yield := xs\<rparr>\<rparr>))"

definition visit_Lambda :: "AutotypeCommand \<Rightarrow> AutotypeCommand" where
  "visit_Lambda c = c\<lparr>state := (state c)\<lparr>in_lambda := True\<rparr>\<rparr>"

definition leave_Lambda :: "AutotypeCommand \<Rightarrow> expr \<Rightarrow> expr \<Rightarrow> expr \<times> AutotypeCommand" where
  "leave_Lambda c original_node updated_node =
     (updated_node, c\<lparr>state := (state c)\<lparr>in_lambda := False\<rparr>\<rparr>)"

definition add_needed_import :: "AutotypeCommand \<Rightarrow> string \<Rightarrow> string \<Rightarrow> AutotypeCommand" where
  "add_needed_import c m n = c\<lparr>needed_imports := needed_imports c @ [(m, n)]\<rparr>"

text \<open>\<open>updated_node.with_changes(returns=Annotation(annotation=a))\<close>\<close>

fun with_returns :: "funcdef \<Rightarrow> expr \<Rightarrow> funcdef" where
  "with_returns (FunctionDef decorators n params returns body) a =
     FunctionDef decorators n params (Some a) body"

fun leave_FunctionDef ::
  "AutotypeCommand \<Rightarrow> funcdef \<Rightarrow> funcdef \<Rightarrow> error + (funcdef \<times> AutotypeCommand)" where
  "leave_FunctionDef c (FunctionDef decorators n params returns body) updated_node =
     (case pop (seen_return_statement (state c)) of
        Inl e \<Rightarrow> Inl e
      | Inr (seen_return, returns_rest) \<Rightarrow>
     (case pop (seen_raise_statement (state c)) of
        Inl e \<Rightarrow> Inl e
      | Inr (seen_raise, raises_rest) \<Rightarrow>
     (case pop (seen_yield (state c)) of
        Inl e \<Rightarrow> Inl e
      | Inr (seen_yield_top, yields_rest) \<Rightarrow>
          (let c1 = c\<lparr>state := (state c)
                      \<lparr>seen_return_statement := returns_rest,
                       seen_raise_statement := raises_rest,
                       seen_yield := yields_rest\<rparr>\<rparr>
           in if returns = None
              then if none_return (state c1) \<and> \<not> seen_raise \<and> \<not> seen_return
                        \<and> \<not> seen_yield_top
                   then Inr (with_returns updated_node (Name ''None''), c1)
                   else (case (if annotate_magics (state c1)
                               then map_of SIMPLE_MAGICS n else None) of
                           Some t \<Rightarrow> Inr (with_returns updated_node (Name t), c1)
                         | None \<Rightarrow>
                             (case (if annotate_imprecise_magics (state c1)
                                    then map_of IMPRECISE_MAGICS n else None) of
                                Some (m, imported_name) \<Rightarrow>
                                  Inr (with_returns updated_node (Name imported_name),
                                       add_needed_import c1 m imported_name)
                              | None \<Rightarrow> Inr (updated_node, c1)))
              else Inr (updated_node, c1)))))"

text \<open>\<open>updated_node.with_changes(annotation=Annotation(annotation=a))\<close>\<close>

fun with_annotation :: "param \<Rightarrow> expr \<Rightarrow> param" where
  "with_annotation (Param n annotation default_value) a = Param n (Some a) default_value"

text \<open>
  \<open>_annotate_param\<close>: the rule's import is requested, then \<open>typing.Optional\<close> when
  \<open>optional\<close> is set; then the name node of the rule's type name is built, which raises
  when the library refuses it; the annotation is \<open>Optional[T]\<close> or the bare \<open>T\<close>.
\<close>

definition annotate_param ::
  "AutotypeCommand \<Rightarrow> NamedParam \<Rightarrow> param \<Rightarrow> bool
     \<Rightarrow> error + (param \<times> AutotypeCommand)" where
  "annotate_param c p updated_node optional =
     (let c1 = add_needed_import c (module p) (type_name p);
          c2 = (if optional then add_needed_import c1 ''typing'' ''Optional'' else c1)
      in case new_Name (type_name p) of
           Inl e \<Rightarrow> Inl e
         | Inr type_name_node \<Rightarrow>
             Inr (with_annotation updated_node
                    (if optional then Subscript (Name ''Optional'') [type_name_node]
                     else type_name_node),
                  c2))"

text \<open>
  The two \<open>for\<close> loops of \<open>leave_Param\<close>: the rules are tried in order, the first whose
  name is the parameter's returns from \<open>leave_Param\<close> with the annotated node, and a
  loop that runs out falls through to \<open>return updated_node\<close>.
\<close>

fun annotate_first ::
  "AutotypeCommand \<Rightarrow> NamedParam list \<Rightarrow> string \<Rightarrow> param \<Rightarrow> bool
     \<Rightarrow> error + (param \<times> AutotypeCommand)" where
  "annotate_first c [] n updated_node optional = Inr (updated_node, c)"
| "annotate_first c (r # rs) n updated_node optional =
     (if n = name r then annotate_param c r updated_node optional
      else annotate_first c rs n updated_node optional)"

text \<open>\<open>d is not None and isinstance(d, libcst.Name) and d.value in values\<close>\<close>

fun is_name_in :: "expr option \<Rightarrow> string list \<Rightarrow> bool" where
  "is_name_in (Some (Name v)) values = (v \<in> set values)"
| "is_name_in d values = False"

fun leave_Param ::
  "AutotypeCommand \<Rightarrow> param \<Rightarrow> param \<Rightarrow> error + (param \<times> AutotypeCommand)" where
  "leave_Param c (Param n annotation default_value) updated_node =
     (if in_lambda (state c) then Inr (updated_node, c)
      else if annotation \<noteq> None then Inr (updated_node, c)
      else if bool_param (state c) \<and> is_name_in default_value [''True'', ''False'']
      then Inr (with_annotation updated_node (Name ''bool''), c)
      else if is_name_in default_value [''None'']
      then annotate_first c (annotate_optionals (state c)) n updated_node True
      else if default_value = None
      then annotate_first c (annotate_named_params (state c)) n updated_node False
      else Inr (updated_node, c))"

section \<open>The traversal\<close>

text \<open>
  A node's \<open>visit\<close>: the visitor's \<open>visit_X\<close>, then the children in field order, then
  \<open>leave_X\<close> with the node as it was and the node rebuilt from the visited children.
  None of this visitor's \<open>visit_X\<close> returns \<open>False\<close>, so children are always visited.
  \<open>visit_optional\<close> and \<open>visit_sequence\<close> visit an optional child and a sequence of
  children; an exception ends the traversal. A lambda is rebuilt, and so validated, from
  its visited parameters and body before \<open>leave_Lambda\<close> is called.
\<close>

fun visit_optional ::
  "('s \<Rightarrow> 'a \<Rightarrow> error + ('a \<times> 's)) \<Rightarrow> 's \<Rightarrow> 'a option \<Rightarrow> error + ('a option \<times> 's)" where
  "visit_optional f s None = Inr (None, s)"
| "visit_optional f s (Some x) =
     (case f s x of
        Inl e \<Rightarrow> Inl e
      | Inr (x', s') \<Rightarrow> Inr (Some x', s'))"

fun visit_sequence ::
  "('s \<Rightarrow> 'a \<Rightarrow> error + ('a \<times> 's)) \<Rightarrow> 's \<Rightarrow> 'a list \<Rightarrow> error + ('a list \<times> 's)" where
  "visit_sequence f s [] = Inr ([], s)"
| "visit_sequence f s (x # xs) =
     (case f s x of
        Inl e \<Rightarrow> Inl e
      | Inr (x', s') \<Rightarrow>
          (case visit_sequence f s' xs of
             Inl e \<Rightarrow> Inl e
           | Inr (xs', s'') \<Rightarrow> Inr (x' # xs', s'')))"

lemma visit_optional_cong [fundef_cong]:
  assumes "s = t" and "x = y" and "\<And>u a. y = Some a \<Longrightarrow> f u a = g u a"
  shows "visit_optional f s x = visit_optional g t y"
  using assms by (cases y) auto

lemma visit_sequence_cong [fundef_cong]:
  assumes "s = t" and "xs = ys" and "\<And>u a. a \<in> set ys \<Longrightarrow> f u a = g u a"
  shows "visit_sequence f s xs = visit_sequence g t ys"
  using assms
proof (induction ys arbitrary: s t xs)
  case Nil
  then show ?case by simp
next
  case (Cons a ys)
  have "visit_sequence f u ys = visit_sequence g u ys" for u
    using Cons.IH [of u u ys] Cons.prems(3) by simp
  with Cons.prems show ?case
    by (simp split: sum.splits)
qed

fun visit_expr :: "AutotypeCommand \<Rightarrow> expr \<Rightarrow> error + (expr \<times> AutotypeCommand)"
and visit_param :: "AutotypeCommand \<Rightarrow> param \<Rightarrow> error + (param \<times> AutotypeCommand)" where
  "visit_expr c (Name v) = Inr (Name v, c)"
| "visit_expr c (Lambda params body) =
     (case visit_sequence visit_param (visit_Lambda c) params of
        Inl e \<Rightarrow> Inl e
      | Inr (params', c1) \<Rightarrow>
          (case visit_expr c1 body of
             Inl e \<Rightarrow> Inl e
           | Inr (body', c2) \<Rightarrow>
               (case new_Lambda params' body' of
                  Inl e \<Rightarrow> Inl e
                | Inr updated_node \<Rightarrow>
                    Inr (leave_Lambda c2 (Lambda params body) updated_node))))"
| "visit_expr c (Yield v) =
     (case visit_Yield c of
        Inl e \<Rightarrow> Inl e
      | Inr c1 \<Rightarrow>
          (case visit_optional visit_expr c1 v of
             Inl e \<Rightarrow> Inl e
           | Inr (v', c2) \<Rightarrow> Inr (Yield v', c2)))"
| "visit_expr c (Subscript v slice) =
     (case visit_expr c v of
        Inl e \<Rightarrow> Inl e
      | Inr (v', c1) \<Rightarrow>
          (case visit_sequence visit_expr c1 slice of
             Inl e \<Rightarrow> Inl e
           | Inr (slice', c2) \<Rightarrow> Inr (Subscript v' slice', c2)))"
| "visit_expr c (OtherExpr l es) =
     (case visit_sequence visit_expr c es of
        Inl e \<Rightarrow> Inl e
      | Inr (es', c1) \<Rightarrow> Inr (OtherExpr l es', c1))"
| "visit_param c (Param n annotation default_value) =
     (case visit_optional visit_expr c annotation of
        Inl e \<Rightarrow> Inl e
      | Inr (annotation', c1) \<Rightarrow>
          (case visit_optional visit_expr c1 default_value of
             Inl e \<Rightarrow> Inl e
           | Inr (default_value', c2) \<Rightarrow>
               leave_Param c2 (Param n annotation default_value)
                 (Param n annotation' default_value')))"

fun visit_stmt :: "AutotypeCommand \<Rightarrow> stmt \<Rightarrow> error + (stmt \<times> AutotypeCommand)"
and visit_funcdef :: "AutotypeCommand \<Rightarrow> funcdef \<Rightarrow> error + (funcdef \<times> AutotypeCommand)" where
  "visit_stmt c (FunctionDefStmt f) =
     (case visit_funcdef c f of
        Inl e \<Rightarrow> Inl e
      | Inr (f', c1) \<Rightarrow> Inr (FunctionDefStmt f', c1))"
| "visit_stmt c (Return v) =
     (case visit_Return c v of
        Inl e \<Rightarrow> Inl e
      | Inr c1 \<Rightarrow>
          (case visit_optional visit_expr c1 v of
             Inl e \<Rightarrow> Inl e
           | Inr (v', c2) \<Rightarrow> Inr (Return v', c2)))"
| "visit_stmt c (Raise exc cause) =
     (case visit_Raise c of
        Inl e \<Rightarrow> Inl e
      | Inr c1 \<Rightarrow>
          (case visit_optional visit_expr c1 exc of
             Inl e \<Rightarrow> Inl e
           | Inr (exc', c2) \<Rightarrow>
               (case visit_optional visit_expr c2 cause of
                  Inl e \<Rightarrow> Inl e
                | Inr (cause', c3) \<Rightarrow> Inr (Raise exc' cause', c3))))"
| "visit_stmt c (SimpleStmt es) =
     (case visit_sequence visit_expr c es of
        Inl e \<Rightarrow> Inl e
      | Inr (es', c1) \<Rightarrow> Inr (SimpleStmt es', c1))"
| "visit_stmt c (CompoundStmt ss) =
     (case visit_sequence visit_stmt c ss of
        Inl e \<Rightarrow> Inl e
      | Inr (ss', c1) \<Rightarrow> Inr (CompoundStmt ss', c1))"
| "visit_funcdef c (FunctionDef decorators n params returns body) =
     (case visit_sequence visit_expr (visit_FunctionDef c) decorators of
        Inl e \<Rightarrow> Inl e
      | Inr (decorators', c1) \<Rightarrow>
     (case visit_sequence visit_param c1 params of
        Inl e \<Rightarrow> Inl e
      | Inr (params', c2) \<Rightarrow>
     (case visit_optional visit_expr c2 returns of
        Inl e \<Rightarrow> Inl e
      | Inr (returns', c3) \<Rightarrow>
     (case visit_sequence visit_stmt c3 body of
        Inl e \<Rightarrow> Inl e
      | Inr (body', c4) \<Rightarrow>
          leave_FunctionDef c4 (FunctionDef decorators n params returns body)
            (FunctionDef decorators' n params' returns' body')))))"

text \<open>
  \<open>transform_module_impl\<close>: the module's statements are visited in order; the module node
  itself has no handler.
\<close>

definition transform_module_impl ::
  "AutotypeCommand \<Rightarrow> stmt list \<Rightarrow> error + (stmt list \<times> AutotypeCommand)" where
  "transform_module_impl c tree = visit_sequence visit_stmt c tree"

text \<open>
  One invocation: the command is constructed from its arguments, and only a constructed
  command traverses the tree. The result is the new tree with the import requests, or
  the exception that ended the invocation.
\<close>

definition run ::
  "string list option \<Rightarrow> string list option \<Rightarrow> bool \<Rightarrow> bool \<Rightarrow> bool \<Rightarrow> bool
     \<Rightarrow> stmt list \<Rightarrow> error + (stmt list \<times> (string \<times> string) list)" where
  "run annotate_optional annotate_named_param magics imprecise_magics none_ret bool_par tree =
     (case init annotate_optional annotate_named_param magics imprecise_magics
             none_ret bool_par of
        Inl e \<Rightarrow> Inl e
      | Inr c \<Rightarrow>
          (case transform_module_impl c tree of
             Inl e \<Rightarrow> Inl e
           | Inr (tree', c') \<Rightarrow> Inr (tree', needed_imports c')))"

section \<open>Notions the properties are stated with\<close>

text \<open>
  The command after the three \<open>pop()\<close> calls of \<open>leave_FunctionDef\<close>, and the condition
  under which none of them raises.
\<close>

definition pop_frames :: "AutotypeCommand \<Rightarrow> AutotypeCommand" where
  "pop_frames c =
     c\<lparr>state := (state c)
        \<lparr>seen_return_statement := butlast (seen_return_statement (state c)),
         seen_raise_statement := butlast (seen_raise_statement (state c)),
         seen_yield := butlast (seen_yield (state c))\<rparr>\<rparr>"

definition stacks_nonempty :: "AutotypeCommand \<Rightarrow> bool" where
  "stacks_nonempty c \<longleftrightarrow>
     seen_return_statement (state c) \<noteq> [] \<and> seen_raise_statement (state c) \<noteq> []
     \<and> seen_yield (state c) \<noteq> []"

text \<open>
  The conditions of the return-type policy, read on the frame on top of the stacks:
  \<open>rule_a\<close> (bare \<open>None\<close> return: the toggle is on and the frame recorded no raise, no
  value-returning return and no yield), \<open>rule_b\<close> (the toggle is on and the name is a
  simple magic) and \<open>rule_c\<close> (the toggle is on and the name is an imprecise magic).
\<close>

definition rule_a :: "AutotypeCommand \<Rightarrow> bool" where
  "rule_a c \<longleftrightarrow>
     none_return (state c) \<and> \<not> last (seen_raise_statement (state c))
     \<and> \<not> last (seen_return_statement (state c)) \<and> \<not> last (seen_yield (state c))"

definition rule_b :: "AutotypeCommand \<Rightarrow> string \<Rightarrow> bool" where
  "rule_b c n \<longleftrightarrow> annotate_magics (state c) \<and> n \<in> dom (map_of SIMPLE_MAGICS)"

definition rule_c :: "AutotypeCommand \<Rightarrow> string \<Rightarrow> bool" where
  "rule_c c n \<longleftrightarrow> annotate_imprecise_magics (state c) \<and> n \<in> dom (map_of IMPRECISE_MAGICS)"

text \<open>
  What a subtree holds, read off the tree alone. \<open>contains_yield\<close> and
  \<open>contains_lambda\<close>: the expression holds a \<open>yield\<close>, a \<open>lambda\<close>, anywhere in it.
  \<open>return_in_scope\<close>, \<open>raise_in_scope\<close> and \<open>yield_in_scope\<close>: the statement holds a
  \<open>return\<close> with a value, a \<open>raise\<close>, a \<open>yield\<close>, outside every function definition nested
  in it. \<open>own_return\<close>, \<open>own_raise\<close> and \<open>own_yield\<close>: the same for the children of one
  function definition (its decorators, parameters, return annotation and body).
\<close>

fun option_ex :: "('a \<Rightarrow> bool) \<Rightarrow> 'a option \<Rightarrow> bool" where
  "option_ex P None = False"
| "option_ex P (Some x) = P x"

lemma option_ex_cong [fundef_cong]:
  "x = y \<Longrightarrow> (\<And>a. y = Some a \<Longrightarrow> P a = Q a) \<Longrightarrow> option_ex P x = option_ex Q y"
  by (cases y) auto

fun contains_yield :: "expr \<Rightarrow> bool"
and param_contains_yield :: "param \<Rightarrow> bool" where
  "contains_yield (Name v) = False"
| "contains_yield (Lambda params body) =
     (list_ex param_contains_yield params \<or> contains_yield body)"
| "contains_yield (Yield v) = True"
| "contains_yield (Subscript v slice) = (contains_yield v \<or> list_ex contains_yield slice)"
| "contains_yield (OtherExpr l es) = list_ex contains_yield es"
| "param_contains_yield (Param n annotation default_value) =
     (option_ex contains_yield annotation \<or> option_ex contains_yield default_value)"

fun contains_lambda :: "expr \<Rightarrow> bool"
and param_contains_lambda :: "param \<Rightarrow> bool" where
  "contains_lambda (Name v) = False"
| "contains_lambda (Lambda params body) = True"
| "contains_lambda (Yield v) = option_ex contains_lambda v"
| "contains_lambda (Subscript v slice) = (contains_lambda v \<or> list_ex contains_lambda slice)"
| "contains_lambda (OtherExpr l es) = list_ex contains_lambda es"
| "param_contains_lambda (Param n annotation default_value) =
     (option_ex contains_lambda annotation \<or> option_ex contains_lambda default_value)"

fun return_in_scope :: "stmt \<Rightarrow> bool" where
  "return_in_scope (FunctionDefStmt f) = False"
| "return_in_scope (Return v) = (v \<noteq> None)"
| "return_in_scope (Raise exc cause) = False"
| "return_in_scope (SimpleStmt es) = False"
| "return_in_scope (CompoundStmt ss) = list_ex return_in_scope ss"

fun raise_in_scope :: "stmt \<Rightarrow> bool" where
  "raise_in_scope (FunctionDefStmt f) = False"
| "raise_in_scope (Return v) = False"
| "raise_in_scope (Raise exc cause) = True"
| "raise_in_scope (SimpleStmt es) = False"
| "raise_in_scope (CompoundStmt ss) = list_ex raise_in_scope ss"

fun yield_in_scope :: "stmt \<Rightarrow> bool" where
  "yield_in_scope (FunctionDefStmt f) = False"
| "yield_in_scope (Return v) = option_ex contains_yield v"
| "yield_in_scope (Raise exc cause) =
     (option_ex contains_yield exc \<or> option_ex contains_yield cause)"
| "yield_in_scope (SimpleStmt es) = list_ex contains_yield es"
| "yield_in_scope (CompoundStmt ss) = list_ex yield_in_scope ss"

fun lambda_in_stmt :: "stmt \<Rightarrow> bool"
and lambda_in_funcdef :: "funcdef \<Rightarrow> bool" where
  "lambda_in_stmt (FunctionDefStmt f) = lambda_in_funcdef f"
| "lambda_in_stmt (Return v) = option_ex contains_lambda v"
| "lambda_in_stmt (Raise exc cause) =
     (option_ex contains_lambda exc \<or> option_ex contains_lambda cause)"
| "lambda_in_stmt (SimpleStmt es) = list_ex contains_lambda es"
| "lambda_in_stmt (CompoundStmt ss) = list_ex lambda_in_stmt ss"
| "lambda_in_funcdef (FunctionDef decorators n params returns body) =
     (list_ex contains_lambda decorators \<or> list_ex param_contains_lambda params
      \<or> option_ex contains_lambda returns \<or> list_ex lambda_in_stmt body)"

fun own_return :: "funcdef \<Rightarrow> bool" where
  "own_return (FunctionDef decorators n params returns body) = list_ex return_in_scope body"

fun own_raise :: "funcdef \<Rightarrow> bool" where
  "own_raise (FunctionDef decorators n params returns body) = list_ex raise_in_scope body"

fun own_yield :: "funcdef \<Rightarrow> bool" where
  "own_yield (FunctionDef decorators n params returns body) =
     (list_ex contains_yield decorators \<or> list_ex param_contains_yield params
      \<or> option_ex contains_yield returns \<or> list_ex yield_in_scope body)"

text \<open>
  \<open>mark b xs\<close> is the stack \<open>xs\<close> with its top frame set when \<open>b\<close> holds. \<open>after\<close> is the
  command after a subtree has been visited: each stack has its top frame set if the
  subtree holds the fact, the lambda flag is cleared if the subtree holds a lambda, the
  import requests have grown, and nothing else has changed. A result \<open>lands\<close> when it
  is such a command with some node, or the validation error: no other exception. A
  visiting function \<open>tracks\<close> a subtree when its result lands from every command with
  non-empty stacks.
\<close>

definition mark :: "bool \<Rightarrow> bool list \<Rightarrow> bool list" where
  "mark b xs = (if b then xs[length xs - 1 := True] else xs)"

definition after ::
  "bool \<Rightarrow> bool \<Rightarrow> bool \<Rightarrow> bool \<Rightarrow> (string \<times> string) list \<Rightarrow> AutotypeCommand
     \<Rightarrow> AutotypeCommand" where
  "after ret rai yld lam imps c =
     c\<lparr>state := (state c)
        \<lparr>seen_return_statement := mark ret (seen_return_statement (state c)),
         seen_raise_statement := mark rai (seen_raise_statement (state c)),
         seen_yield := mark yld (seen_yield (state c)),
         in_lambda := (in_lambda (state c) \<and> \<not> lam)\<rparr>,
       needed_imports := needed_imports c @ imps\<rparr>"

definition lands ::
  "error + ('a \<times> AutotypeCommand) \<Rightarrow> bool \<Rightarrow> bool \<Rightarrow> bool \<Rightarrow> bool \<Rightarrow> AutotypeCommand
     \<Rightarrow> bool" where
  "lands r ret rai yld lam c \<longleftrightarrow>
     r = Inl CSTValidationError \<or> (\<exists>x' imps. r = Inr (x', after ret rai yld lam imps c))"

definition tracks ::
  "(AutotypeCommand \<Rightarrow> 'a \<Rightarrow> error + ('a \<times> AutotypeCommand))
     \<Rightarrow> ('a \<Rightarrow> bool) \<Rightarrow> ('a \<Rightarrow> bool) \<Rightarrow> ('a \<Rightarrow> bool) \<Rightarrow> ('a \<Rightarrow> bool) \<Rightarrow> 'a \<Rightarrow> bool" where
  "tracks f ret rai yld lam x \<longleftrightarrow>
     (\<forall>c. stacks_nonempty c \<longrightarrow> lands (f c x) (ret x) (rai x) (yld x) (lam x) c)"

text \<open>
  For the traversals that complete. A lambda is \<open>irregular\<close> when one of its parameters
  carries an annotation (the parser builds no such lambda) or holds a lambda in its
  default; \<open>irregular_lambda\<close> holds of an expression with such a lambda anywhere in it,
  \<open>irregular_lambda_stmt\<close> of a statement. The rules of a command are \<open>rules_valid\<close> when
  the type name of every Optional rule and of every named-parameter rule is an
  identifier. A visiting function \<open>completes\<close> a subtree when it returns from every
  command with non-empty stacks and valid rules, unless the subtree holds an irregular
  lambda.
\<close>

fun irregular_lambda :: "expr \<Rightarrow> bool"
and irregular_lambda_param :: "param \<Rightarrow> bool" where
  "irregular_lambda (Name v) = False"
| "irregular_lambda (Lambda params body) =
     (list_ex (\<lambda>p. annotation_of p \<noteq> None) params
      \<or> list_ex param_contains_lambda params
      \<or> list_ex irregular_lambda_param params
      \<or> irregular_lambda body)"
| "irregular_lambda (Yield v) = option_ex irregular_lambda v"
| "irregular_lambda (Subscript v slice) =
     (irregular_lambda v \<or> list_ex irregular_lambda slice)"
| "irregular_lambda (OtherExpr l es) = list_ex irregular_lambda es"
| "irregular_lambda_param (Param n annotation default_value) =
     (option_ex irregular_lambda annotation \<or> option_ex irregular_lambda default_value)"

fun irregular_lambda_stmt :: "stmt \<Rightarrow> bool"
and irregular_lambda_funcdef :: "funcdef \<Rightarrow> bool" where
  "irregular_lambda_stmt (FunctionDefStmt f) = irregular_lambda_funcdef f"
| "irregular_lambda_stmt (Return v) = option_ex irregular_lambda v"
| "irregular_lambda_stmt (Raise exc cause) =
     (option_ex irregular_lambda exc \<or> option_ex irregular_lambda cause)"
| "irregular_lambda_stmt (SimpleStmt es) = list_ex irregular_lambda es"
| "irregular_lambda_stmt (CompoundStmt ss) = list_ex irregular_lambda_stmt ss"
| "irregular_lambda_funcdef (FunctionDef decorators n params returns body) =
     (list_ex irregular_lambda decorators \<or> list_ex irregular_lambda_param params
      \<or> option_ex irregular_lambda returns \<or> list_ex irregular_lambda_stmt body)"

definition rules_valid :: "AutotypeCommand \<Rightarrow> bool" where
  "rules_valid c \<longleftrightarrow>
     list_all (\<lambda>r. isidentifier (type_name r)) (annotate_optionals (state c))
     \<and> list_all (\<lambda>r. isidentifier (type_name r)) (annotate_named_params (state c))"

definition completes ::
  "(AutotypeCommand \<Rightarrow> 'a \<Rightarrow> error + ('a \<times> AutotypeCommand)) \<Rightarrow> ('a \<Rightarrow> bool) \<Rightarrow> 'a \<Rightarrow> bool" where
  "completes f irregular x \<longleftrightarrow>
     (\<forall>c. stacks_nonempty c \<and> rules_valid c \<and> \<not> irregular x \<longrightarrow> (\<exists>res. f c x = Inr res))"

text \<open>
  For the second run over a tree the engine has already rewritten. The \<open>config\<close> of a
  command is what its constructor was given. Two commands \<open>agree\<close> when both have
  non-empty stacks, the same configuration and the same lambda flag. A visiting function
  \<open>settles\<close> a subtree when, for agreeing commands, the subtree it returns from the first
  (if it returns one) holds the same facts as the subtree it was given and is returned
  unchanged, with no import requested, from the second. A \<open>simple_annotation\<close> is an annotation
  \<open>_annotate_param\<close> builds: a name, or \<open>Optional\<close> subscripted by a name.
\<close>

definition config ::
  "AutotypeCommand \<Rightarrow> NamedParam list \<times> NamedParam list \<times> bool \<times> bool \<times> bool \<times> bool" where
  "config c =
     (annotate_optionals (state c), annotate_named_params (state c),
      annotate_magics (state c), annotate_imprecise_magics (state c),
      none_return (state c), bool_param (state c))"

definition agree :: "AutotypeCommand \<Rightarrow> AutotypeCommand \<Rightarrow> bool" where
  "agree c c2 \<longleftrightarrow>
     stacks_nonempty c \<and> stacks_nonempty c2 \<and> config c2 = config c
     \<and> in_lambda (state c2) = in_lambda (state c)"

definition settles ::
  "(AutotypeCommand \<Rightarrow> 'a \<Rightarrow> error + ('a \<times> AutotypeCommand))
     \<Rightarrow> ('a \<Rightarrow> bool) \<Rightarrow> ('a \<Rightarrow> bool) \<Rightarrow> ('a \<Rightarrow> bool) \<Rightarrow> ('a \<Rightarrow> bool) \<Rightarrow> 'a \<Rightarrow> bool" where
  "settles f ret rai yld lam x \<longleftrightarrow>
     (\<forall>c c2 x' c'. agree c c2 \<longrightarrow> f c x = Inr (x', c') \<longrightarrow>
        ret x' = ret x \<and> rai x' = rai x \<and> yld x' = yld x \<and> lam x' = lam x
        \<and> f c2 x' = Inr (x', after (ret x) (rai x) (yld x) (lam x) [] c2))"

definition simple_annotation :: "expr \<Rightarrow> bool" where
  "simple_annotation e \<longleftrightarrow>
     (\<exists>t. e = Name t) \<or> (\<exists>t. e = Subscript (Name ''Optional'') [Name t])"

text \<open>
  A statement the visitor passes over: a simple statement other than \<open>return\<close> and
  \<open>raise\<close> that holds no lambda and no yield. Every import statement is one.
\<close>

fun import_like :: "stmt \<Rightarrow> bool" where
  "import_like (SimpleStmt es) =
     (\<not> list_ex contains_lambda es \<and> \<not> list_ex contains_yield es)"
| "import_like s = False"

section \<open>Rule strings: what \<open>make\<close> accepts\<close>

lemma split_no_sep: "sep \<notin> set s \<Longrightarrow> split sep s = [s]"
  by (induction s) auto

lemma split_takeWhile:
  "split sep s =
     takeWhile (\<lambda>c. c \<noteq> sep) s #
       (if sep \<in> set s then split sep (tl (dropWhile (\<lambda>c. c \<noteq> sep) s)) else [])"
  by (induction s) (auto split: list.splits)

lemma length_split: "length (split sep s) = Suc (count_list s sep)"
  by (induction s) (auto split: list.splits)

lemma count_list_tl_dropWhile:
  "x \<in> set s \<Longrightarrow> count_list s x = Suc (count_list (tl (dropWhile (\<lambda>c. c \<noteq> x) s)) x)"
  by (induction s) auto

lemma split_two_iff:
  "(\<exists>a b. split sep s = [a, b]) \<longleftrightarrow> count_list s sep = 1"
proof -
  have "(\<exists>a b. split sep s = [a, b]) \<longleftrightarrow> length (split sep s) = 2"
    by (metis (no_types) length_0_conv length_Suc_conv numeral_2_eq_2 One_nat_def)
  then show ?thesis by (simp add: length_split)
qed

lemma split_one_sep:
  assumes "count_list s sep = 1"
  shows "split sep s = [takeWhile (\<lambda>c. c \<noteq> sep) s, tl (dropWhile (\<lambda>c. c \<noteq> sep) s)]"
proof -
  from assms have in_s: "sep \<in> set s"
    using count_list_0_iff [of s sep] by auto
  with assms have "count_list (tl (dropWhile (\<lambda>c. c \<noteq> sep) s)) sep = 0"
    using count_list_tl_dropWhile [of sep s] by simp
  then have "sep \<notin> set (tl (dropWhile (\<lambda>c. c \<noteq> sep) s))"
    by (simp add: count_list_0_iff)
  then have "split sep (tl (dropWhile (\<lambda>c. c \<noteq> sep) s)) = [tl (dropWhile (\<lambda>c. c \<noteq> sep) s)]"
    by (rule split_no_sep)
  with in_s show ?thesis
    using split_takeWhile [of sep s] by simp
qed

lemma make_not_one_colon:
  "count_list s (CHR '':'') \<noteq> 1 \<Longrightarrow> make s = Inl ValueError"
proof -
  assume "count_list s (CHR '':'') \<noteq> 1"
  then have "\<not> (\<exists>a b. split (CHR '':'') s = [a, b])"
    by (simp add: split_two_iff)
  then show ?thesis
    by (auto simp: make_def split: list.splits)
qed

lemma make_one_colon:
  "count_list s (CHR '':'') = 1 \<Longrightarrow>
   make s =
     (case rsplit1 (CHR ''.'') (tl (dropWhile (\<lambda>c. c \<noteq> CHR '':'') s)) of
        [m, t] \<Rightarrow> Inr \<lparr>name = takeWhile (\<lambda>c. c \<noteq> CHR '':'') s, module = m, type_name = t\<rparr>
      | _ \<Rightarrow> Inl ValueError)"
  by (simp add: make_def split_one_sep)

lemma takeWhile_up_to_sep:
  "sep \<notin> set xs \<Longrightarrow> takeWhile (\<lambda>c. c \<noteq> sep) (xs @ sep # ys) = xs"
  by (induction xs) auto

lemma dropWhile_up_to_sep:
  "sep \<notin> set xs \<Longrightarrow> dropWhile (\<lambda>c. c \<noteq> sep) (xs @ sep # ys) = sep # ys"
  by (induction xs) auto

lemma rsplit1_last: "sep \<notin> set t \<Longrightarrow> rsplit1 sep (m @ sep # t) = [m, t]"
  by (simp add: rsplit1_def takeWhile_up_to_sep dropWhile_up_to_sep)

text \<open>
  Claim C7. A rule string \<open>NAME:MODULE.TYPE\<close> is cut at its colon and then at the last
  dot of the type path: for a name, module and type without a colon and a type without
  a dot, parsing \<open>NAME:MODULE.TYPE\<close> gives exactly these three parts, whatever dots the
  module (or the name) holds. So \<open>a:b.C\<close> gives \<open>a\<close>, \<open>b\<close>, \<open>C\<close> and \<open>a:b.c.D\<close> gives
  \<open>a\<close>, \<open>b.c\<close>, \<open>D\<close>; a string without a colon fails with \<open>ValueError\<close>.
\<close>

theorem make_splits_colon_then_last_dot:
  "(CHR '':'' \<notin> set n \<and> CHR '':'' \<notin> set m \<and> CHR '':'' \<notin> set t \<and> CHR ''.'' \<notin> set t
      \<longrightarrow> make (n @ '':'' @ m @ ''.'' @ t) = Inr \<lparr>name = n, module = m, type_name = t\<rparr>)
   \<and> make ''a:b.C'' = Inr \<lparr>name = ''a'', module = ''b'', type_name = ''C''\<rparr>
   \<and> make ''a:b.c.D'' = Inr \<lparr>name = ''a'', module = ''b.c'', type_name = ''D''\<rparr>
   \<and> (CHR '':'' \<notin> set s \<longrightarrow> make s = Inl ValueError)"
proof (intro conjI impI)
  assume h: "CHR '':'' \<notin> set n \<and> CHR '':'' \<notin> set m \<and> CHR '':'' \<notin> set t \<and> CHR ''.'' \<notin> set t"
  have colon: "split (CHR '':'') (n @ '':'' @ m @ ''.'' @ t) = [n, m @ ''.'' @ t]"
    using h by (induction n) (auto simp: split_no_sep)
  have dot: "rsplit1 (CHR ''.'') (m @ ''.'' @ t) = [m, t]"
    using h by (simp add: rsplit1_last)
  show "make (n @ '':'' @ m @ ''.'' @ t) = Inr \<lparr>name = n, module = m, type_name = t\<rparr>"
    by (simp only: make_def colon dot list.case)
next
  show "make ''a:b.C'' = Inr \<lparr>name = ''a'', module = ''b'', type_name = ''C''\<rparr>"
    by (simp add: make_def rsplit1_def)
next
  show "make ''a:b.c.D'' = Inr \<lparr>name = ''a'', module = ''b.c'', type_name = ''D''\<rparr>"
    by (simp add: make_def rsplit1_def)
next
  assume "CHR '':'' \<notin> set s"
  then show "make s = Inl ValueError"
    by (simp add: make_def split_no_sep)
qed

theorem make_splits_colon_then_last_dot_witness:
  "make ''foo:a.b.Baz'' = Inr \<lparr>name = ''foo'', module = ''a.b'', type_name = ''Baz''\<rparr>
   \<and> make ''a.b'' = Inl ValueError"
  using make_splits_colon_then_last_dot [of "''foo''" "''a.b''" "''Baz''" "''a.b''"]
  by simp

text \<open>
  Claim C8 says that a rule string with more than one colon still parses, the name being
  the text before the first colon. The code splits at every colon and unpacks into two
  names, so a second colon is a \<open>ValueError\<close>.
\<close>

theorem make_two_colons_counterexample:
  "make ''a:b:c.D'' = Inl ValueError"
  by (simp add: make_def)

text \<open>
  Claim C8, amended. Parsing succeeds exactly when the string has one colon and a dot
  after it, and fails with \<open>ValueError\<close> otherwise: no colon, more than one colon, or no
  dot in the type path. On success the name is the text before the colon, the module the
  text between the colon and the last dot, the type name the text after the last dot.
\<close>

theorem make_succeeds_iff_one_colon_and_dot:
  "make s =
     (if count_list s (CHR '':'') = 1
         \<and> CHR ''.'' \<in> set (tl (dropWhile (\<lambda>c. c \<noteq> CHR '':'') s))
      then Inr \<lparr>name = takeWhile (\<lambda>c. c \<noteq> CHR '':'') s,
                module = rev (tl (dropWhile (\<lambda>c. c \<noteq> CHR ''.'')
                           (rev (tl (dropWhile (\<lambda>c. c \<noteq> CHR '':'') s))))),
                type_name = rev (takeWhile (\<lambda>c. c \<noteq> CHR ''.'')
                           (rev (tl (dropWhile (\<lambda>c. c \<noteq> CHR '':'') s))))\<rparr>
      else Inl ValueError)"
proof (cases "count_list s (CHR '':'') = 1")
  case True
  show ?thesis
  proof (cases "CHR ''.'' \<in> set (tl (dropWhile (\<lambda>c. c \<noteq> CHR '':'') s))")
    case dot: True
    with True show ?thesis
      by (simp add: make_one_colon rsplit1_def)
  next
    case nodot: False
    with True show ?thesis
      by (simp add: make_one_colon rsplit1_def)
  qed
next
  case False
  then show ?thesis
    by (simp add: make_not_one_colon)
qed

theorem make_succeeds_iff_one_colon_and_dot_witness:
  "make ''x:mymod.Foo'' = Inr \<lparr>name = ''x'', module = ''mymod'', type_name = ''Foo''\<rparr>
   \<and> make ''x:Foo'' = Inl ValueError
   \<and> make ''x:y:mymod.Foo'' = Inl ValueError
   \<and> make ''mymod.Foo'' = Inl ValueError"
  using make_succeeds_iff_one_colon_and_dot [of "''x:mymod.Foo''"]
    make_succeeds_iff_one_colon_and_dot [of "''x:Foo''"]
    make_succeeds_iff_one_colon_and_dot [of "''x:y:mymod.Foo''"]
    make_succeeds_iff_one_colon_and_dot [of "''mymod.Foo''"]
  by simp

lemma make_error: "make s = Inl e \<Longrightarrow> e = ValueError"
  by (cases "count_list s (CHR '':'') = 1")
    (auto simp: make_one_colon make_not_one_colon rsplit1_def split: if_splits)

lemma make_all_error: "make_all ss = Inl e \<Longrightarrow> e = ValueError"
  by (induction ss arbitrary: e) (auto split: sum.splits dest: make_error)

lemma make_all_fails:
  "s \<in> set ss \<Longrightarrow> make s = Inl ValueError \<Longrightarrow> make_all ss = Inl ValueError"
proof (induction ss)
  case Nil
  then show ?case by simp
next
  case (Cons a ss)
  show ?case
  proof (cases "make a")
    case (Inl e)
    then show ?thesis using make_error [OF Inl] by simp
  next
    case (Inr p)
    with Cons have "make_all ss = Inl ValueError" by auto
    with Inr show ?thesis by simp
  qed
qed

lemma rules_of_error: "rules_of arg = Inl e \<Longrightarrow> e = ValueError"
  by (auto simp: rules_of_def split: option.splits if_splits dest: make_all_error)

lemma rules_of_fails:
  "s \<in> set ss \<Longrightarrow> make s = Inl ValueError \<Longrightarrow> rules_of (Some ss) = Inl ValueError"
  by (auto simp: rules_of_def dest: make_all_fails)

lemma malformed_make:
  "CHR '':'' \<notin> set s \<or> CHR ''.'' \<notin> set (tl (dropWhile (\<lambda>c. c \<noteq> CHR '':'') s))
   \<Longrightarrow> make s = Inl ValueError"
  by (cases "count_list s (CHR '':'') = 1")
    (auto simp: make_one_colon make_not_one_colon rsplit1_def count_list_0_iff)

text \<open>
  Claim C9. A rule string without a colon, or without a dot after its colon, among the
  Optional rules or among the named-parameter rules makes the construction of the command
  fail with \<open>ValueError\<close>, whatever the other arguments are; so the invocation fails for
  every tree and returns no tree.
\<close>

theorem malformed_rule_fails_at_construction:
  assumes "s \<in> set rules"
    and "CHR '':'' \<notin> set s \<or> CHR ''.'' \<notin> set (tl (dropWhile (\<lambda>c. c \<noteq> CHR '':'') s))"
  shows "init (Some rules) named mg im nr bp = Inl ValueError
       \<and> init opt (Some rules) mg im nr bp = Inl ValueError
       \<and> run (Some rules) named mg im nr bp tree = Inl ValueError
       \<and> run opt (Some rules) mg im nr bp tree = Inl ValueError"
proof -
  have bad: "rules_of (Some rules) = Inl ValueError"
    using assms by (blast intro: rules_of_fails malformed_make)
  have first: "init (Some rules) named mg im nr bp = Inl ValueError"
    by (simp add: init_def bad)
  have second: "init opt (Some rules) mg im nr bp = Inl ValueError"
  proof (cases "rules_of opt")
    case (Inl e)
    then show ?thesis using rules_of_error [OF Inl] by (simp add: init_def)
  next
    case (Inr ps)
    then show ?thesis by (simp add: init_def bad)
  qed
  show ?thesis
    by (simp add: first second run_def)
qed

theorem malformed_rule_fails_at_construction_witness:
  "init (Some [''x:mymod.Foo'', ''a.b'']) None False False True True = Inl ValueError
   \<and> init (Some [''x:mymod.Foo'']) (Some [''y:Foo'']) False False True True = Inl ValueError
   \<and> run (Some [''a.b'']) None False False True True
        [FunctionDefStmt (FunctionDef [] ''f'' [] None [])] = Inl ValueError
   \<and> run None (Some [''a.b'']) False False True True
        [FunctionDefStmt (FunctionDef [] ''f'' [] None [])] = Inl ValueError"
  using malformed_rule_fails_at_construction [of "''a.b''" "[''x:mymod.Foo'', ''a.b'']" None False False True True "Some [''a.b'']" "[FunctionDefStmt (FunctionDef [] ''f'' [] None [])]"]
    malformed_rule_fails_at_construction [of "''y:Foo''" "[''y:Foo'']" None False False True True "Some [''x:mymod.Foo'']" "[FunctionDefStmt (FunctionDef [] ''f'' [] None [])]"]
    malformed_rule_fails_at_construction [of "''a.b''" "[''a.b'']" None False False True True None "[FunctionDefStmt (FunctionDef [] ''f'' [] None [])]"]
  by simp

section \<open>The handlers on their own\<close>

lemma pop_snoc: "pop (xs @ [x]) = Inr (x, xs)"
  by (simp add: pop_def)

lemma leave_FunctionDef_nonempty:
  assumes "stacks_nonempty c"
  shows "leave_FunctionDef c (FunctionDef ds n ps r b) upd =
     (if r = None
      then if rule_a c
           then Inr (with_returns upd (Name ''None''), pop_frames c)
           else (case (if annotate_magics (state c) then map_of SIMPLE_MAGICS n else None) of
                   Some t \<Rightarrow> Inr (with_returns upd (Name t), pop_frames c)
                 | None \<Rightarrow>
                     (case (if annotate_imprecise_magics (state c)
                            then map_of IMPRECISE_MAGICS n else None) of
                        Some (m, imported_name) \<Rightarrow>
                          Inr (with_returns upd (Name imported_name),
                               add_needed_import (pop_frames c) m imported_name)
                      | None \<Rightarrow> Inr (upd, pop_frames c)))
      else Inr (upd, pop_frames c))"
  using assms unfolding stacks_nonempty_def pop_frames_def rule_a_def
  by (simp add: pop_def Let_def)

lemma new_Name_cases:
  "new_Name v = (if isidentifier v then Inr (Name v) else Inl CSTValidationError)"
  by (cases v) (simp_all add: new_Name_def)

lemma literal_names_valid:
  "new_Name ''None'' = Inr (Name ''None'')"
  "new_Name ''bool'' = Inr (Name ''bool'')"
  "new_Name ''Optional'' = Inr (Name ''Optional'')"
  "map_of SIMPLE_MAGICS n = Some t \<Longrightarrow> new_Name t = Inr (Name t)"
  "map_of IMPRECISE_MAGICS n = Some (m, imported_name) \<Longrightarrow>
     new_Name imported_name = Inr (Name imported_name)"
  by (auto simp: new_Name_cases xid_start_def xid_continue_def SIMPLE_MAGICS_def
      IMPRECISE_MAGICS_def split: if_splits)

lemma annotate_first_find:
  "annotate_first c rs n upd optional =
     (case find (\<lambda>r. name r = n) rs of
        None \<Rightarrow> Inr (upd, c)
      | Some r \<Rightarrow> annotate_param c r upd optional)"
  by (induction rs) auto

lemma annotate_param_Optional:
  "annotate_param c r upd True =
     (if isidentifier (type_name r)
      then Inr (with_annotation upd (Subscript (Name ''Optional'') [Name (type_name r)]),
                c\<lparr>needed_imports := needed_imports c
                     @ [(module r, type_name r), (''typing'', ''Optional'')]\<rparr>)
      else Inl CSTValidationError)"
  by (simp add: annotate_param_def new_Name_cases add_needed_import_def)

text \<open>
  Claim C4, amended. Outside a lambda, a parameter with no annotation whose default is
  the \<open>None\<close> literal is handled by the first Optional rule whose name is the
  parameter's. If that rule's type name is an identifier, the parameter is annotated
  \<open>Optional[TYPE]\<close>, and the rule's (module, type name) and then \<open>(typing, Optional)\<close> are
  requested as imports. If it is not an identifier, the library refuses the name node
  and the handler raises \<open>CSTValidationError\<close>. With no such rule the parameter and the
  requests are unchanged. This holds for the handler on any updated node and for the
  visit of the parameter as a whole.
\<close>

theorem optional_rule_first_match:
  assumes "\<not> in_lambda (state c)"
  shows "leave_Param c (Param n None (Some (Name ''None''))) upd =
           (case find (\<lambda>r. name r = n) (annotate_optionals (state c)) of
              None \<Rightarrow> Inr (upd, c)
            | Some r \<Rightarrow>
                if isidentifier (type_name r)
                then Inr (with_annotation upd
                            (Subscript (Name ''Optional'') [Name (type_name r)]),
                          c\<lparr>needed_imports := needed_imports c
                               @ [(module r, type_name r), (''typing'', ''Optional'')]\<rparr>)
                else Inl CSTValidationError)
       \<and> visit_param c (Param n None (Some (Name ''None''))) =
           (case find (\<lambda>r. name r = n) (annotate_optionals (state c)) of
              None \<Rightarrow> Inr (Param n None (Some (Name ''None'')), c)
            | Some r \<Rightarrow>
                if isidentifier (type_name r)
                then Inr (Param n (Some (Subscript (Name ''Optional'') [Name (type_name r)]))
                            (Some (Name ''None'')),
                          c\<lparr>needed_imports := needed_imports c
                               @ [(module r, type_name r), (''typing'', ''Optional'')]\<rparr>)
                else Inl CSTValidationError)"
proof -
  have handler: "leave_Param c (Param n None (Some (Name ''None''))) upd =
      annotate_first c (annotate_optionals (state c)) n upd True" for upd
    using assms by simp
  have visit: "visit_param c (Param n None (Some (Name ''None''))) =
      annotate_first c (annotate_optionals (state c)) n (Param n None (Some (Name ''None''))) True"
    using assms by simp
  show ?thesis
    unfolding handler visit annotate_first_find annotate_param_Optional
    by (simp split: option.splits)
qed

theorem optional_rule_first_match_witness:
  "visit_param
     \<lparr>state = \<lparr>annotate_optionals =
                  [\<lparr>name = ''y'', module = ''m'', type_name = ''A''\<rparr>,
                   \<lparr>name = ''x'', module = ''mymod'', type_name = ''Foo''\<rparr>,
                   \<lparr>name = ''x'', module = ''other'', type_name = ''Bar''\<rparr>],
                annotate_named_params = [],
                annotate_magics = False, annotate_imprecise_magics = False,
                none_return = False, bool_param = True,
                seen_return_statement = [False], seen_raise_statement = [False],
                seen_yield = [False], in_lambda = False\<rparr>,
       needed_imports = []\<rparr>
     (Param ''x'' None (Some (Name ''None'')))
   = Inr (Param ''x'' (Some (Subscript (Name ''Optional'') [Name ''Foo''])) (Some (Name ''None'')),
     \<lparr>state = \<lparr>annotate_optionals =
                  [\<lparr>name = ''y'', module = ''m'', type_name = ''A''\<rparr>,
                   \<lparr>name = ''x'', module = ''mymod'', type_name = ''Foo''\<rparr>,
                   \<lparr>name = ''x'', module = ''other'', type_name = ''Bar''\<rparr>],
                annotate_named_params = [],
                annotate_magics = False, annotate_imprecise_magics = False,
                none_return = False, bool_param = True,
                seen_return_statement = [False], seen_raise_statement = [False],
                seen_yield = [False], in_lambda = False\<rparr>,
       needed_imports = [(''mymod'', ''Foo''), (''typing'', ''Optional'')]\<rparr>)"
  using optional_rule_first_match
    [of "\<lparr>state = \<lparr>annotate_optionals =
                  [\<lparr>name = ''y'', module = ''m'', type_name = ''A''\<rparr>,
                   \<lparr>name = ''x'', module = ''mymod'', type_name = ''Foo''\<rparr>,
                   \<lparr>name = ''x'', module = ''other'', type_name = ''Bar''\<rparr>],
                annotate_named_params = [],
                annotate_magics = False, annotate_imprecise_magics = False,
                none_return = False, bool_param = True,
                seen_return_statement = [False], seen_raise_statement = [False],
                seen_yield = [False], in_lambda = False\<rparr>,
       needed_imports = []\<rparr>" "''x''" "Param ''x'' None (Some (Name ''None''))"]
  by (simp add: xid_start_def xid_continue_def)

text \<open>
  Claim C4 as stated fails at the rule \<open>x:m.\<close>, which \<open>NamedParam.make\<close> accepts with the
  empty type name: for the parameter \<open>x=None\<close> of \<open>def f(x=None)\<close> the handler raises, and
  the invocation returns no tree.
\<close>

theorem optional_rule_empty_type_name_counterexample:
  "make ''x:m.'' = Inr \<lparr>name = ''x'', module = ''m'', type_name = ''''\<rparr>
   \<and> init (Some [''x:m.'']) None False False False False
       = Inr \<lparr>state = \<lparr>annotate_optionals = [\<lparr>name = ''x'', module = ''m'', type_name = ''''\<rparr>],
                annotate_named_params = [],
                annotate_magics = False, annotate_imprecise_magics = False,
                none_return = False, bool_param = False,
                seen_return_statement = [False], seen_raise_statement = [False],
                seen_yield = [False], in_lambda = False\<rparr>,
              needed_imports = []\<rparr>
   \<and> leave_Param
       \<lparr>state = \<lparr>annotate_optionals = [\<lparr>name = ''x'', module = ''m'', type_name = ''''\<rparr>],
                annotate_named_params = [],
                annotate_magics = False, annotate_imprecise_magics = False,
                none_return = False, bool_param = False,
                seen_return_statement = [False, False], seen_raise_statement = [False, False],
                seen_yield = [False, False], in_lambda = False\<rparr>,
              needed_imports = []\<rparr>
       (Param ''x'' None (Some (Name ''None''))) (Param ''x'' None (Some (Name ''None'')))
       = Inl CSTValidationError
   \<and> run (Some [''x:m.'']) None False False False False
       [FunctionDefStmt (FunctionDef [] ''f'' [Param ''x'' None (Some (Name ''None''))] None [])]
       = Inl CSTValidationError"
  by (simp add: run_def init_def rules_of_def make_def rsplit1_def transform_module_impl_def
      visit_FunctionDef_def annotate_param_def new_Name_def)

text \<open>
  Claim C5. Outside a lambda, with the bool-param toggle enabled, a parameter with no
  annotation whose default is the \<open>True\<close> or the \<open>False\<close> literal is annotated \<open>bool\<close> and
  no import is requested, whatever the Optional and named-parameter rules are, also when
  one of them carries the parameter's name.
\<close>

theorem bool_default_annotated_bool:
  assumes "\<not> in_lambda (state c)" and "bool_param (state c)"
    and "v = ''True'' \<or> v = ''False''"
  shows "leave_Param c (Param n None (Some (Name v))) upd
           = Inr (with_annotation upd (Name ''bool''), c)
       \<and> visit_param c (Param n None (Some (Name v)))
           = Inr (Param n (Some (Name ''bool'')) (Some (Name v)), c)"
  using assms by auto

theorem bool_default_annotated_bool_witness:
  "visit_param
     \<lparr>state = \<lparr>annotate_optionals = [\<lparr>name = ''flag'', module = ''mymod'', type_name = ''Foo''\<rparr>],
                annotate_named_params = [\<lparr>name = ''flag'', module = ''mymod'', type_name = ''Foo''\<rparr>],
                annotate_magics = False, annotate_imprecise_magics = False,
                none_return = False, bool_param = True,
                seen_return_statement = [False], seen_raise_statement = [False],
                seen_yield = [False], in_lambda = False\<rparr>,
       needed_imports = []\<rparr>
     (Param ''flag'' None (Some (Name ''True'')))
   = Inr (Param ''flag'' (Some (Name ''bool'')) (Some (Name ''True'')),
     \<lparr>state = \<lparr>annotate_optionals = [\<lparr>name = ''flag'', module = ''mymod'', type_name = ''Foo''\<rparr>],
                annotate_named_params = [\<lparr>name = ''flag'', module = ''mymod'', type_name = ''Foo''\<rparr>],
                annotate_magics = False, annotate_imprecise_magics = False,
                none_return = False, bool_param = True,
                seen_return_statement = [False], seen_raise_statement = [False],
                seen_yield = [False], in_lambda = False\<rparr>,
       needed_imports = []\<rparr>)"
  using bool_default_annotated_bool
    [of "\<lparr>state = \<lparr>annotate_optionals = [\<lparr>name = ''flag'', module = ''mymod'', type_name = ''Foo''\<rparr>],
                annotate_named_params = [\<lparr>name = ''flag'', module = ''mymod'', type_name = ''Foo''\<rparr>],
                annotate_magics = False, annotate_imprecise_magics = False,
                none_return = False, bool_param = True,
                seen_return_statement = [False], seen_raise_statement = [False],
                seen_yield = [False], in_lambda = False\<rparr>,
       needed_imports = []\<rparr>" "''True''" "''flag''" "Param ''flag'' None (Some (Name ''True''))"]
  by simp

text \<open>
  Claim C2 on the code. \<open>leave_Lambda\<close> clears the flag whatever it was when the lambda
  was entered. At \<open>lambda a=(lambda: 0), b=True: a\<close> with the bool-param toggle: the
  visit of the inner lambda, begun inside the outer one with the flag set, ends with
  the flag cleared; so the visit of the outer lambda's parameters, begun with the flag
  set by \<open>visit_Lambda\<close>, returns \<open>b\<close> annotated \<open>bool\<close>; the library then refuses to
  rebuild the outer lambda around an annotated parameter, and the invocation ends with
  \<open>CSTValidationError\<close> instead of returning the tree unchanged.
\<close>

theorem nested_lambda_param_annotated:
  "leave_Lambda c original_node updated_node
     = (updated_node, c\<lparr>state := (state c)\<lparr>in_lambda := False\<rparr>\<rparr>)
   \<and> visit_expr
       \<lparr>state = \<lparr>annotate_optionals = [], annotate_named_params = [],
                  annotate_magics = False, annotate_imprecise_magics = False,
                  none_return = False, bool_param = True,
                  seen_return_statement = [False], seen_raise_statement = [False],
                  seen_yield = [False], in_lambda = True\<rparr>,
         needed_imports = []\<rparr>
       (Lambda [] (OtherExpr ''0'' []))
     = Inr (Lambda [] (OtherExpr ''0'' []),
       \<lparr>state = \<lparr>annotate_optionals = [], annotate_named_params = [],
                  annotate_magics = False, annotate_imprecise_magics = False,
                  none_return = False, bool_param = True,
                  seen_return_statement = [False], seen_raise_statement = [False],
                  seen_yield = [False], in_lambda = False\<rparr>,
         needed_imports = []\<rparr>)
   \<and> visit_sequence visit_param
       (visit_Lambda
          \<lparr>state = \<lparr>annotate_optionals = [], annotate_named_params = [],
                     annotate_magics = False, annotate_imprecise_magics = False,
                     none_return = False, bool_param = True,
                     seen_return_statement = [False], seen_raise_statement = [False],
                     seen_yield = [False], in_lambda = False\<rparr>,
            needed_imports = []\<rparr>)
       [Param ''a'' None (Some (Lambda [] (OtherExpr ''0'' []))),
        Param ''b'' None (Some (Name ''True''))]
     = Inr ([Param ''a'' None (Some (Lambda [] (OtherExpr ''0'' []))),
             Param ''b'' (Some (Name ''bool'')) (Some (Name ''True''))],
       \<lparr>state = \<lparr>annotate_optionals = [], annotate_named_params = [],
                  annotate_magics = False, annotate_imprecise_magics = False,
                  none_return = False, bool_param = True,
                  seen_return_statement = [False], seen_raise_statement = [False],
                  seen_yield = [False], in_lambda = False\<rparr>,
         needed_imports = []\<rparr>)
   \<and> run None None False False False True
       [SimpleStmt [Lambda [Param ''a'' None (Some (Lambda [] (OtherExpr ''0'' []))),
                            Param ''b'' None (Some (Name ''True''))] (Name ''a'')]]
     = Inl CSTValidationError"
  by (simp add: run_def init_def rules_of_def transform_module_impl_def
      visit_Lambda_def leave_Lambda_def new_Lambda_def)

section \<open>What a visit does to the command\<close>

lemma mark_False [simp]: "mark False xs = xs"
  by (simp add: mark_def)

lemma mark_mark [simp]: "mark b (mark a xs) = mark (a \<or> b) xs"
  by (auto simp: mark_def)

lemma mark_Nil_iff [simp]: "mark b xs = [] \<longleftrightarrow> xs = []"
  by (simp add: mark_def)

lemma length_mark [simp]: "length (mark b xs) = length xs"
  by (simp add: mark_def)

lemma mark_snoc [simp]: "mark b (xs @ [a]) = xs @ [a \<or> b]"
  by (simp add: mark_def)

lemma butlast_mark [simp]: "butlast (mark b xs) = butlast xs"
proof (cases xs rule: rev_cases)
  case Nil
  then show ?thesis by (simp add: mark_def)
next
  case (snoc ys y)
  then show ?thesis by simp
qed

lemma last_mark [simp]: "xs \<noteq> [] \<Longrightarrow> last (mark b xs) = (last xs \<or> b)"
  by (cases xs rule: rev_cases) simp_all

lemma after_nothing [simp]: "after False False False False [] c = c"
  by (simp add: after_def)

lemma after_after [simp]:
  "after r2 a2 y2 l2 i2 (after r1 a1 y1 l1 i1 c)
     = after (r1 \<or> r2) (a1 \<or> a2) (y1 \<or> y2) (l1 \<or> l2) (i1 @ i2) c"
  by (simp add: after_def)

lemma stacks_nonempty_after [simp]:
  "stacks_nonempty (after r a y l i c) = stacks_nonempty c"
  by (simp add: after_def stacks_nonempty_def)

lemma lands_fail [simp]: "lands (Inl e) ret rai yld lam c = (e = CSTValidationError)"
  by (simp add: lands_def)

lemma lands_Inr: "lands (Inr (x', after ret rai yld lam imps c)) ret rai yld lam c"
  unfolding lands_def by blast

lemma lands_same: "lands (Inr (x', c)) False False False False c"
  using lands_Inr [of x' False False False False "[]" c] by simp

lemma tracksI:
  assumes "\<And>c. stacks_nonempty c \<Longrightarrow> lands (f c x) (ret x) (rai x) (yld x) (lam x) c"
  shows "tracks f ret rai yld lam x"
  using assms unfolding tracks_def by blast

lemma tracksE:
  assumes "tracks f ret rai yld lam x" and "stacks_nonempty c"
  obtains (fail) "f c x = Inl CSTValidationError"
  | (good) x' imps where "f c x = Inr (x', after (ret x) (rai x) (yld x) (lam x) imps c)"
  using assms unfolding tracks_def lands_def by blast

lemma tracksD:
  assumes "tracks f ret rai yld lam x" and "stacks_nonempty c" and "\<exists>r. f c x = Inr r"
  obtains x' imps where "f c x = Inr (x', after (ret x) (rai x) (yld x) (lam x) imps c)"
proof -
  from assms(3) obtain r where r: "f c x = Inr r" by blast
  from assms(1,2) have "lands (f c x) (ret x) (rai x) (yld x) (lam x) c"
    unfolding tracks_def by blast
  with r have "\<exists>x' imps. f c x = Inr (x', after (ret x) (rai x) (yld x) (lam x) imps c)"
    unfolding lands_def by simp
  then show thesis using that by blast
qed

lemma tracks_sequence:
  assumes "\<And>x. x \<in> set xs \<Longrightarrow> tracks f ret rai yld lam x"
  shows "tracks (visit_sequence f) (list_ex ret) (list_ex rai) (list_ex yld) (list_ex lam) xs"
  using assms
proof (induction xs)
  case Nil
  show ?case
  proof (rule tracksI)
    fix c
    show "lands (visit_sequence f c []) (list_ex ret []) (list_ex rai []) (list_ex yld [])
        (list_ex lam []) c"
      by (simp add: lands_same)
  qed
next
  case (Cons x xs)
  have hd: "tracks f ret rai yld lam x"
    using Cons.prems by simp
  have tl: "tracks (visit_sequence f) (list_ex ret) (list_ex rai) (list_ex yld) (list_ex lam) xs"
    using Cons by simp
  show ?case
  proof (rule tracksI)
    fix c
    assume ok: "stacks_nonempty c"
    from hd ok show "lands (visit_sequence f c (x # xs)) (list_ex ret (x # xs))
        (list_ex rai (x # xs)) (list_ex yld (x # xs)) (list_ex lam (x # xs)) c"
    proof (cases rule: tracksE)
      case fail
      then show ?thesis by simp
    next
      case (good x' i1)
      note x = good
      let ?c1 = "after (ret x) (rai x) (yld x) (lam x) i1 c"
      have "stacks_nonempty ?c1" using ok by simp
      with tl show ?thesis
      proof (cases rule: tracksE)
        case fail
        then show ?thesis by (simp add: x)
      next
        case (good xs' i2)
        have "visit_sequence f c (x # xs) =
            Inr (x' # xs', after (list_ex ret (x # xs)) (list_ex rai (x # xs))
               (list_ex yld (x # xs)) (list_ex lam (x # xs)) (i1 @ i2) c)"
          by (simp add: x good)
        then show ?thesis by (simp only: lands_Inr)
      qed
    qed
  qed
qed

lemma tracks_optional:
  assumes "\<And>x. v = Some x \<Longrightarrow> tracks f ret rai yld lam x"
  shows "tracks (visit_optional f) (option_ex ret) (option_ex rai) (option_ex yld)
           (option_ex lam) v"
proof (cases v)
  case None
  show ?thesis
    unfolding None by (rule tracksI) (simp add: lands_same)
next
  case (Some x)
  have t: "tracks f ret rai yld lam x" using assms Some by simp
  show ?thesis
    unfolding Some
  proof (rule tracksI)
    fix c
    assume "stacks_nonempty c"
    with t show "lands (visit_optional f c (Some x)) (option_ex ret (Some x))
        (option_ex rai (Some x)) (option_ex yld (Some x)) (option_ex lam (Some x)) c"
    proof (cases rule: tracksE)
      case fail
      then show ?thesis by simp
    next
      case (good x' i)
      then show ?thesis by (simp add: lands_Inr)
    qed
  qed
qed

lemma list_ex_never [simp]: "list_ex (\<lambda>_. False) xs = False"
  by (induction xs) auto

lemma option_ex_never [simp]: "option_ex (\<lambda>_. False) v = False"
  by (cases v) auto

lemma visit_Yield_after:
  "stacks_nonempty c \<Longrightarrow> visit_Yield c = Inr (after False False True False [] c)"
  by (simp add: visit_Yield_def set_last_True_def stacks_nonempty_def after_def mark_def)

lemma visit_Raise_after:
  "stacks_nonempty c \<Longrightarrow> visit_Raise c = Inr (after False True False False [] c)"
  by (simp add: visit_Raise_def set_last_True_def stacks_nonempty_def after_def mark_def)

lemma visit_Return_after:
  "stacks_nonempty c \<Longrightarrow> visit_Return c v = Inr (after (v \<noteq> None) False False False [] c)"
  by (simp add: visit_Return_def set_last_True_def stacks_nonempty_def after_def mark_def)

lemma annotate_param_eq:
  "annotate_param c r upd optional =
     (if isidentifier (type_name r)
      then Inr (with_annotation upd
                  (if optional then Subscript (Name ''Optional'') [Name (type_name r)]
                   else Name (type_name r)),
                after False False False False
                  (if optional then [(module r, type_name r), (''typing'', ''Optional'')]
                   else [(module r, type_name r)]) c)
      else Inl CSTValidationError)"
  by (simp add: annotate_param_def new_Name_cases add_needed_import_def after_def)

lemma annotate_param_after:
  "lands (annotate_param c r upd optional) False False False False c"
  unfolding annotate_param_eq by (simp add: lands_Inr)

lemma annotate_first_after:
  "lands (annotate_first c rs n upd optional) False False False False c"
proof (induction rs)
  case Nil
  show ?case by (simp add: lands_same)
next
  case (Cons r rs)
  then show ?case
    using annotate_param_after [of c r upd optional] by (cases "n = name r") simp_all
qed

lemma leave_Param_after:
  "lands (leave_Param c orig upd) False False False False c"
proof (cases orig)
  case (Param n annotation default_value)
  show ?thesis
    unfolding Param leave_Param.simps
    using annotate_first_after [of c "annotate_optionals (state c)" n upd True]
      annotate_first_after [of c "annotate_named_params (state c)" n upd False]
    by (simp add: lands_same)
qed

lemma lands_more:
  assumes "lands r False False False False (after ret rai yld lam imps c)"
  shows "lands r ret rai yld lam c"
  using assms unfolding lands_def by auto

lemma tracks_expr:
  "tracks visit_expr (\<lambda>_. False) (\<lambda>_. False) contains_yield contains_lambda e"
  and tracks_param:
  "tracks visit_param (\<lambda>_. False) (\<lambda>_. False) param_contains_yield param_contains_lambda p"
proof (induction e and p)
  case (Name v)
  show ?case
    by (rule tracksI) (simp add: lands_same)
next
  case (Lambda params body)
  have ps: "tracks (visit_sequence visit_param) (list_ex (\<lambda>_. False)) (list_ex (\<lambda>_. False))
              (list_ex param_contains_yield) (list_ex param_contains_lambda) params"
    using Lambda.IH(1) by (rule tracks_sequence)
  show ?case
  proof (rule tracksI)
    fix c
    assume ok: "stacks_nonempty c"
    then have ok0: "stacks_nonempty (visit_Lambda c)"
      by (simp add: stacks_nonempty_def visit_Lambda_def)
    with ps show "lands (visit_expr c (Lambda params body)) False False
        (contains_yield (Lambda params body)) (contains_lambda (Lambda params body)) c"
    proof (cases rule: tracksE)
      case fail
      then show ?thesis by simp
    next
      case (good params' i1)
      note 1 = good [simplified]
      let ?c1 = "after False False (list_ex param_contains_yield params)
                   (list_ex param_contains_lambda params) i1 (visit_Lambda c)"
      have ok1: "stacks_nonempty ?c1" using ok0 by simp
      with Lambda.IH(2) show ?thesis
      proof (cases rule: tracksE)
        case fail
        then show ?thesis by (simp add: 1)
      next
        case (good body' i2)
        note 2 = good
        show ?thesis
        proof (cases "new_Lambda params' body'")
          case (Inl e)
          then have "e = CSTValidationError"
            by (simp add: new_Lambda_def split: if_splits)
          with Inl show ?thesis by (simp add: 1 2)
        next
          case (Inr upd)
          have "visit_expr c (Lambda params body) =
              Inr (upd, after False False (contains_yield (Lambda params body))
                (contains_lambda (Lambda params body)) (i1 @ i2) c)"
            by (simp add: 1 2 Inr leave_Lambda_def) (simp add: after_def visit_Lambda_def)
          then show ?thesis by (simp only: lands_Inr)
        qed
      qed
    qed
  qed
next
  case (Yield v)
  have opt: "tracks (visit_optional visit_expr) (option_ex (\<lambda>_. False)) (option_ex (\<lambda>_. False))
              (option_ex contains_yield) (option_ex contains_lambda) v"
    by (rule tracks_optional) (simp add: Yield.IH)
  show ?case
  proof (rule tracksI)
    fix c
    assume ok: "stacks_nonempty c"
    let ?c1 = "after False False True False [] c"
    have ok1: "stacks_nonempty ?c1" using ok by simp
    with opt show "lands (visit_expr c (Yield v)) False False
        (contains_yield (Yield v)) (contains_lambda (Yield v)) c"
    proof (cases rule: tracksE)
      case fail
      then show ?thesis by (simp add: visit_Yield_after [OF ok])
    next
      case (good v' i)
      note 1 = good [simplified]
      have "visit_expr c (Yield v) =
          Inr (Yield v', after False False (contains_yield (Yield v))
            (contains_lambda (Yield v)) i c)"
        by (simp add: visit_Yield_after [OF ok] 1)
      then show ?thesis by (simp only: lands_Inr)
    qed
  qed
next
  case (Subscript v slice)
  have sl: "tracks (visit_sequence visit_expr) (list_ex (\<lambda>_. False)) (list_ex (\<lambda>_. False))
              (list_ex contains_yield) (list_ex contains_lambda) slice"
    using Subscript.IH(2) by (rule tracks_sequence)
  show ?case
  proof (rule tracksI)
    fix c
    assume ok: "stacks_nonempty c"
    with Subscript.IH(1) show "lands (visit_expr c (Subscript v slice)) False False
        (contains_yield (Subscript v slice)) (contains_lambda (Subscript v slice)) c"
    proof (cases rule: tracksE)
      case fail
      then show ?thesis by simp
    next
      case (good v' i1)
      note 1 = good
      let ?c1 = "after False False (contains_yield v) (contains_lambda v) i1 c"
      have ok1: "stacks_nonempty ?c1" using ok by simp
      with sl show ?thesis
      proof (cases rule: tracksE)
        case fail
        then show ?thesis by (simp add: 1)
      next
        case (good slice' i2)
        note 2 = good [simplified]
        have "visit_expr c (Subscript v slice) =
            Inr (Subscript v' slice', after False False (contains_yield (Subscript v slice))
              (contains_lambda (Subscript v slice)) (i1 @ i2) c)"
          by (simp add: 1 2)
        then show ?thesis by (simp only: lands_Inr)
      qed
    qed
  qed
next
  case (OtherExpr l es)
  have sq: "tracks (visit_sequence visit_expr) (list_ex (\<lambda>_. False)) (list_ex (\<lambda>_. False))
              (list_ex contains_yield) (list_ex contains_lambda) es"
    using OtherExpr.IH by (rule tracks_sequence)
  show ?case
  proof (rule tracksI)
    fix c
    assume ok: "stacks_nonempty c"
    with sq show "lands (visit_expr c (OtherExpr l es)) False False
        (contains_yield (OtherExpr l es)) (contains_lambda (OtherExpr l es)) c"
    proof (cases rule: tracksE)
      case fail
      then show ?thesis by simp
    next
      case (good es' i)
      note 1 = good [simplified]
      have "visit_expr c (OtherExpr l es) =
          Inr (OtherExpr l es', after False False (contains_yield (OtherExpr l es))
            (contains_lambda (OtherExpr l es)) i c)"
        by (simp add: 1)
      then show ?thesis by (simp only: lands_Inr)
    qed
  qed
next
  case (Param n annotation default_value)
  have an: "tracks (visit_optional visit_expr) (option_ex (\<lambda>_. False)) (option_ex (\<lambda>_. False))
              (option_ex contains_yield) (option_ex contains_lambda) annotation"
    by (rule tracks_optional) (simp add: Param.IH(1))
  have df: "tracks (visit_optional visit_expr) (option_ex (\<lambda>_. False)) (option_ex (\<lambda>_. False))
              (option_ex contains_yield) (option_ex contains_lambda) default_value"
    by (rule tracks_optional) (simp add: Param.IH(2))
  show ?case
  proof (rule tracksI)
    fix c
    assume ok: "stacks_nonempty c"
    with an show "lands (visit_param c (Param n annotation default_value)) False False
        (param_contains_yield (Param n annotation default_value))
        (param_contains_lambda (Param n annotation default_value)) c"
    proof (cases rule: tracksE)
      case fail
      then show ?thesis by simp
    next
      case (good a' i1)
      note 1 = good [simplified]
      let ?c1 = "after False False (option_ex contains_yield annotation)
                   (option_ex contains_lambda annotation) i1 c"
      have ok1: "stacks_nonempty ?c1" using ok by simp
      with df show ?thesis
      proof (cases rule: tracksE)
        case fail
        then show ?thesis by (simp add: 1)
      next
        case (good d' i2)
        note 2 = good [simplified]
        let ?c2 = "after False False
                     (param_contains_yield (Param n annotation default_value))
                     (param_contains_lambda (Param n annotation default_value)) (i1 @ i2) c"
        have "visit_param c (Param n annotation default_value) =
            leave_Param ?c2 (Param n annotation default_value) (Param n a' d')"
          by (simp add: 1 2 del: leave_Param.simps)
        moreover have "lands (leave_Param ?c2 (Param n annotation default_value)
            (Param n a' d')) False False False False ?c2"
          by (rule leave_Param_after)
        ultimately show ?thesis
          by (simp only: lands_more)
      qed
    qed
  qed
qed

lemma leave_FunctionDef_after:
  assumes "stacks_nonempty c"
  shows "\<exists>f' imps. leave_FunctionDef c orig upd =
           Inr (f', after False False False False imps (pop_frames c))"
proof (cases orig)
  case (FunctionDef ds n ps r b)
  have imp: "add_needed_import (pop_frames c) m s
               = after False False False False [(m, s)] (pop_frames c)" for m s
    by (simp add: add_needed_import_def after_def)
  have same: "pop_frames c = after False False False False [] (pop_frames c)"
    by simp
  show ?thesis
    unfolding FunctionDef leave_FunctionDef_nonempty [OF assms] imp
    by (auto split: option.splits intro: same)
qed

lemma stacks_nonempty_visit_FunctionDef [simp]: "stacks_nonempty (visit_FunctionDef c)"
  by (simp add: stacks_nonempty_def visit_FunctionDef_def)

lemma pop_frames_after_visit_FunctionDef:
  "pop_frames (after r a y l i (visit_FunctionDef c)) = after False False False l i c"
  by (simp add: pop_frames_def after_def visit_FunctionDef_def)

lemma visit_funcdef_children:
  assumes body: "\<And>s. s \<in> set b \<Longrightarrow>
      tracks visit_stmt return_in_scope raise_in_scope yield_in_scope lambda_in_stmt s"
    and ok: "stacks_nonempty c"
  shows "visit_funcdef c (FunctionDef ds n ps r b) = Inl CSTValidationError
    \<or> (\<exists>ds' ps' r' b' imps.
      visit_funcdef c (FunctionDef ds n ps r b) =
        leave_FunctionDef
          (after (own_return (FunctionDef ds n ps r b)) (own_raise (FunctionDef ds n ps r b))
             (own_yield (FunctionDef ds n ps r b)) (lambda_in_funcdef (FunctionDef ds n ps r b))
             imps (visit_FunctionDef c))
          (FunctionDef ds n ps r b) (FunctionDef ds' n ps' r' b'))"
proof -
  have t_ds: "tracks (visit_sequence visit_expr) (list_ex (\<lambda>_. False)) (list_ex (\<lambda>_. False))
              (list_ex contains_yield) (list_ex contains_lambda) ds"
    by (rule tracks_sequence) (rule tracks_expr)
  have t_ps: "tracks (visit_sequence visit_param) (list_ex (\<lambda>_. False)) (list_ex (\<lambda>_. False))
              (list_ex param_contains_yield) (list_ex param_contains_lambda) ps"
    by (rule tracks_sequence) (rule tracks_param)
  have t_r: "tracks (visit_optional visit_expr) (option_ex (\<lambda>_. False)) (option_ex (\<lambda>_. False))
              (option_ex contains_yield) (option_ex contains_lambda) r"
    by (rule tracks_optional) (rule tracks_expr)
  have t_b: "tracks (visit_sequence visit_stmt) (list_ex return_in_scope)
              (list_ex raise_in_scope) (list_ex yield_in_scope) (list_ex lambda_in_stmt) b"
    using body by (rule tracks_sequence)
  let ?c0 = "visit_FunctionDef c"
  have ok0: "stacks_nonempty ?c0" by simp
  with t_ds show ?thesis
  proof (cases rule: tracksE)
    case fail
    then show ?thesis by simp
  next
    case (good ds' i1)
    note 1 = good [simplified]
    let ?c1 = "after False False (list_ex contains_yield ds) (list_ex contains_lambda ds) i1 ?c0"
    have ok1: "stacks_nonempty ?c1" by simp
    with t_ps show ?thesis
    proof (cases rule: tracksE)
      case fail
      then show ?thesis by (simp add: 1)
    next
      case (good ps' i2)
      note 2 = good [simplified]
      let ?c2 = "after False False (list_ex contains_yield ds \<or> list_ex param_contains_yield ps)
                   (list_ex contains_lambda ds \<or> list_ex param_contains_lambda ps)
                   (i1 @ i2) ?c0"
      have ok2: "stacks_nonempty ?c2" by simp
      with t_r show ?thesis
      proof (cases rule: tracksE)
        case fail
        then show ?thesis by (simp add: 1 2)
      next
        case (good r' i3)
        note 3 = good [simplified]
        let ?c3 = "after False False
                     ((list_ex contains_yield ds \<or> list_ex param_contains_yield ps)
                        \<or> option_ex contains_yield r)
                     ((list_ex contains_lambda ds \<or> list_ex param_contains_lambda ps)
                        \<or> option_ex contains_lambda r)
                     ((i1 @ i2) @ i3) ?c0"
        have ok3: "stacks_nonempty ?c3" by simp
        with t_b show ?thesis
        proof (cases rule: tracksE)
          case fail
          then show ?thesis by (simp add: 1 2 3)
        next
          case (good b' i4)
          note 4 = good [simplified]
          have "visit_funcdef c (FunctionDef ds n ps r b) =
              leave_FunctionDef
                (after (own_return (FunctionDef ds n ps r b)) (own_raise (FunctionDef ds n ps r b))
                   (own_yield (FunctionDef ds n ps r b))
                   (lambda_in_funcdef (FunctionDef ds n ps r b))
                   (((i1 @ i2) @ i3) @ i4) ?c0)
                (FunctionDef ds n ps r b) (FunctionDef ds' n ps' r' b')"
            by (simp add: 1 2 3 4 del: leave_FunctionDef.simps)
          then show ?thesis by blast
        qed
      qed
    qed
  qed
qed

lemma tracks_stmt:
  "tracks visit_stmt return_in_scope raise_in_scope yield_in_scope lambda_in_stmt s"
  and tracks_funcdef:
  "tracks visit_funcdef (\<lambda>_. False) (\<lambda>_. False) (\<lambda>_. False) lambda_in_funcdef f"
proof (induction s and f)
  case (FunctionDefStmt f)
  show ?case
  proof (rule tracksI)
    fix c
    assume ok: "stacks_nonempty c"
    with FunctionDefStmt.IH show "lands (visit_stmt c (FunctionDefStmt f))
        (return_in_scope (FunctionDefStmt f)) (raise_in_scope (FunctionDefStmt f))
        (yield_in_scope (FunctionDefStmt f)) (lambda_in_stmt (FunctionDefStmt f)) c"
    proof (cases rule: tracksE)
      case fail
      then show ?thesis by simp
    next
      case (good f' i)
      then show ?thesis by (simp add: lands_Inr)
    qed
  qed
next
  case (Return v)
  have opt: "tracks (visit_optional visit_expr) (option_ex (\<lambda>_. False)) (option_ex (\<lambda>_. False))
              (option_ex contains_yield) (option_ex contains_lambda) v"
    by (rule tracks_optional) (rule tracks_expr)
  show ?case
  proof (rule tracksI)
    fix c
    assume ok: "stacks_nonempty c"
    let ?c1 = "after (v \<noteq> None) False False False [] c"
    have ok1: "stacks_nonempty ?c1" using ok by simp
    with opt show "lands (visit_stmt c (Return v)) (return_in_scope (Return v))
        (raise_in_scope (Return v)) (yield_in_scope (Return v)) (lambda_in_stmt (Return v)) c"
    proof (cases rule: tracksE)
      case fail
      then show ?thesis by (simp add: visit_Return_after [OF ok] del: not_None_eq)
    next
      case (good v' i)
      have "visit_stmt c (Return v) =
          Inr (Return v', after (return_in_scope (Return v)) (raise_in_scope (Return v))
            (yield_in_scope (Return v)) (lambda_in_stmt (Return v)) i c)"
        using good by (simp add: visit_Return_after [OF ok] del: not_None_eq)
      then show ?thesis by (simp only: lands_Inr)
    qed
  qed
next
  case (Raise exc cause)
  have ex: "tracks (visit_optional visit_expr) (option_ex (\<lambda>_. False)) (option_ex (\<lambda>_. False))
              (option_ex contains_yield) (option_ex contains_lambda) exc"
    by (rule tracks_optional) (rule tracks_expr)
  have ca: "tracks (visit_optional visit_expr) (option_ex (\<lambda>_. False)) (option_ex (\<lambda>_. False))
              (option_ex contains_yield) (option_ex contains_lambda) cause"
    by (rule tracks_optional) (rule tracks_expr)
  show ?case
  proof (rule tracksI)
    fix c
    assume ok: "stacks_nonempty c"
    let ?c1 = "after False True False False [] c"
    have ok1: "stacks_nonempty ?c1" using ok by simp
    with ex show "lands (visit_stmt c (Raise exc cause)) (return_in_scope (Raise exc cause))
        (raise_in_scope (Raise exc cause)) (yield_in_scope (Raise exc cause))
        (lambda_in_stmt (Raise exc cause)) c"
    proof (cases rule: tracksE)
      case fail
      then show ?thesis by (simp add: visit_Raise_after [OF ok])
    next
      case (good exc' i1)
      note 1 = good [simplified]
      let ?c2 = "after False True (option_ex contains_yield exc)
                   (option_ex contains_lambda exc) i1 c"
      have ok2: "stacks_nonempty ?c2" using ok by simp
      with ca show ?thesis
      proof (cases rule: tracksE)
        case fail
        then show ?thesis using 1 by (simp add: visit_Raise_after [OF ok])
      next
        case (good cause' i2)
        note 2 = good [simplified]
        have "visit_stmt c (Raise exc cause) =
            Inr (Raise exc' cause', after (return_in_scope (Raise exc cause))
              (raise_in_scope (Raise exc cause)) (yield_in_scope (Raise exc cause))
              (lambda_in_stmt (Raise exc cause)) (i1 @ i2) c)"
          using 1 2 by (simp add: visit_Raise_after [OF ok])
        then show ?thesis by (simp only: lands_Inr)
      qed
    qed
  qed
next
  case (SimpleStmt es)
  have sq: "tracks (visit_sequence visit_expr) (list_ex (\<lambda>_. False)) (list_ex (\<lambda>_. False))
              (list_ex contains_yield) (list_ex contains_lambda) es"
    by (rule tracks_sequence) (rule tracks_expr)
  show ?case
  proof (rule tracksI)
    fix c
    assume ok: "stacks_nonempty c"
    with sq show "lands (visit_stmt c (SimpleStmt es)) (return_in_scope (SimpleStmt es))
        (raise_in_scope (SimpleStmt es)) (yield_in_scope (SimpleStmt es))
        (lambda_in_stmt (SimpleStmt es)) c"
    proof (cases rule: tracksE)
      case fail
      then show ?thesis by simp
    next
      case (good es' i)
      note 1 = good [simplified]
      have "visit_stmt c (SimpleStmt es) =
          Inr (SimpleStmt es', after (return_in_scope (SimpleStmt es))
            (raise_in_scope (SimpleStmt es)) (yield_in_scope (SimpleStmt es))
            (lambda_in_stmt (SimpleStmt es)) i c)"
        by (simp add: 1)
      then show ?thesis by (simp only: lands_Inr)
    qed
  qed
next
  case (CompoundStmt ss)
  have sq: "tracks (visit_sequence visit_stmt) (list_ex return_in_scope)
              (list_ex raise_in_scope) (list_ex yield_in_scope) (list_ex lambda_in_stmt) ss"
    using CompoundStmt.IH by (rule tracks_sequence)
  show ?case
  proof (rule tracksI)
    fix c
    assume ok: "stacks_nonempty c"
    with sq show "lands (visit_stmt c (CompoundStmt ss)) (return_in_scope (CompoundStmt ss))
        (raise_in_scope (CompoundStmt ss)) (yield_in_scope (CompoundStmt ss))
        (lambda_in_stmt (CompoundStmt ss)) c"
    proof (cases rule: tracksE)
      case fail
      then show ?thesis by simp
    next
      case (good ss' i)
      have "visit_stmt c (CompoundStmt ss) =
          Inr (CompoundStmt ss', after (return_in_scope (CompoundStmt ss))
            (raise_in_scope (CompoundStmt ss)) (yield_in_scope (CompoundStmt ss))
            (lambda_in_stmt (CompoundStmt ss)) i c)"
        by (simp add: good)
      then show ?thesis by (simp only: lands_Inr)
    qed
  qed
next
  case (FunctionDef ds n ps r b)
  show ?case
  proof (rule tracksI)
    fix c
    assume ok: "stacks_nonempty c"
    let ?f = "FunctionDef ds n ps r b"
    from visit_funcdef_children [OF FunctionDef.IH ok]
    consider (fail) "visit_funcdef c ?f = Inl CSTValidationError"
      | (good) ds' ps' r' b' imps where
        "visit_funcdef c ?f =
            leave_FunctionDef
              (after (own_return ?f) (own_raise ?f) (own_yield ?f) (lambda_in_funcdef ?f)
                 imps (visit_FunctionDef c))
              ?f (FunctionDef ds' n ps' r' b')"
      by blast
    then show "lands (visit_funcdef c ?f) False False False (lambda_in_funcdef ?f) c"
    proof cases
      case fail
      then show ?thesis by (simp only: lands_fail)
    next
      case good
      note 1 = good
      let ?c4 = "after (own_return ?f) (own_raise ?f) (own_yield ?f) (lambda_in_funcdef ?f)
                   imps (visit_FunctionDef c)"
      have ok4: "stacks_nonempty ?c4" by simp
      obtain f' i5 where
        5: "leave_FunctionDef ?c4 ?f (FunctionDef ds' n ps' r' b') =
              Inr (f', after False False False False i5 (pop_frames ?c4))"
        using leave_FunctionDef_after [OF ok4] by blast
      have "visit_funcdef c ?f = Inr (f', after False False False False i5 (pop_frames ?c4))"
        by (simp only: 1 5)
      also have "\<dots> = Inr (f', after False False False (lambda_in_funcdef ?f) (imps @ i5) c)"
        by (simp add: pop_frames_after_visit_FunctionDef)
      finally show ?thesis by (simp only: lands_Inr)
    qed
  qed
qed

lemma visit_funcdef_chain:
  assumes ok: "stacks_nonempty c"
    and v1: "visit_sequence visit_expr (visit_FunctionDef c) ds = Inr (ds', c1)"
    and v2: "visit_sequence visit_param c1 ps = Inr (ps', c2)"
    and v3: "visit_optional visit_expr c2 r = Inr (r', c3)"
    and v4: "visit_sequence visit_stmt c3 b = Inr (b', c4)"
  shows "\<exists>imps. c4 = after (own_return (FunctionDef ds n ps r b))
             (own_raise (FunctionDef ds n ps r b)) (own_yield (FunctionDef ds n ps r b))
             (lambda_in_funcdef (FunctionDef ds n ps r b)) imps (visit_FunctionDef c)"
    and "visit_funcdef c (FunctionDef ds n ps r b)
           = leave_FunctionDef c4 (FunctionDef ds n ps r b) (FunctionDef ds' n ps' r' b')"
proof -
  let ?c0 = "visit_FunctionDef c"
  have t_ds: "tracks (visit_sequence visit_expr) (list_ex (\<lambda>_. False)) (list_ex (\<lambda>_. False))
            (list_ex contains_yield) (list_ex contains_lambda) ds"
    by (rule tracks_sequence) (rule tracks_expr)
  have t_ps: "tracks (visit_sequence visit_param) (list_ex (\<lambda>_. False)) (list_ex (\<lambda>_. False))
            (list_ex param_contains_yield) (list_ex param_contains_lambda) ps"
    by (rule tracks_sequence) (rule tracks_param)
  have t_r: "tracks (visit_optional visit_expr) (option_ex (\<lambda>_. False)) (option_ex (\<lambda>_. False))
            (option_ex contains_yield) (option_ex contains_lambda) r"
    by (rule tracks_optional) (rule tracks_expr)
  have t_b: "tracks (visit_sequence visit_stmt) (list_ex return_in_scope)
            (list_ex raise_in_scope) (list_ex yield_in_scope) (list_ex lambda_in_stmt) b"
    by (rule tracks_sequence) (rule tracks_stmt)
  have ok0: "stacks_nonempty ?c0" by simp
  from t_ds ok0 v1 obtain i1 where
    c1: "c1 = after False False (list_ex contains_yield ds) (list_ex contains_lambda ds) i1 ?c0"
    by (auto elim!: tracksD)
  have ok1: "stacks_nonempty c1" unfolding c1 by simp
  from t_ps ok1 v2 obtain i2 where
    c2: "c2 = after False False (list_ex param_contains_yield ps)
                (list_ex param_contains_lambda ps) i2 c1"
    by (auto elim!: tracksD)
  have ok2: "stacks_nonempty c2" unfolding c2 c1 by simp
  from t_r ok2 v3 obtain i3 where
    c3: "c3 = after False False (option_ex contains_yield r)
                (option_ex contains_lambda r) i3 c2"
    by (auto elim!: tracksD)
  have ok3: "stacks_nonempty c3" unfolding c3 c2 c1 by simp
  from t_b ok3 v4 obtain i4 where
    c4: "c4 = after (list_ex return_in_scope b) (list_ex raise_in_scope b)
                (list_ex yield_in_scope b) (list_ex lambda_in_stmt b) i4 c3"
    by (auto elim!: tracksD)
  have "c4 = after (own_return (FunctionDef ds n ps r b))
             (own_raise (FunctionDef ds n ps r b)) (own_yield (FunctionDef ds n ps r b))
             (lambda_in_funcdef (FunctionDef ds n ps r b)) (((i1 @ i2) @ i3) @ i4) ?c0"
    unfolding c4 c3 c2 c1 by simp
  then show "\<exists>imps. c4 = after (own_return (FunctionDef ds n ps r b))
             (own_raise (FunctionDef ds n ps r b)) (own_yield (FunctionDef ds n ps r b))
             (lambda_in_funcdef (FunctionDef ds n ps r b)) imps (visit_FunctionDef c)"
    by blast
  show "visit_funcdef c (FunctionDef ds n ps r b)
           = leave_FunctionDef c4 (FunctionDef ds n ps r b) (FunctionDef ds' n ps' r' b')"
    by (simp add: v1 v2 v3 v4 del: leave_FunctionDef.simps)
qed


section \<open>Traversals that complete\<close>

lemma rules_valid_after [simp]: "rules_valid (after r a y l i c) = rules_valid c"
  by (simp add: rules_valid_def after_def)

lemma rules_valid_visit_Lambda [simp]: "rules_valid (visit_Lambda c) = rules_valid c"
  by (simp add: rules_valid_def visit_Lambda_def)

lemma rules_valid_visit_FunctionDef [simp]: "rules_valid (visit_FunctionDef c) = rules_valid c"
  by (simp add: rules_valid_def visit_FunctionDef_def)

lemma in_lambda_after [simp]:
  "in_lambda (state (after r a y l i c)) = (in_lambda (state c) \<and> \<not> l)"
  by (simp add: after_def)

lemma annotate_first_returns:
  assumes "list_all (\<lambda>r. isidentifier (type_name r)) rs"
  shows "\<exists>res. annotate_first c rs n upd optional = Inr res"
  using assms by (induction rs) (simp_all add: annotate_param_eq)

lemma leave_Param_returns:
  assumes "rules_valid c"
  shows "\<exists>res. leave_Param c orig upd = Inr res"
proof (cases orig)
  case (Param n a d)
  from assms have v1: "list_all (\<lambda>r. isidentifier (type_name r)) (annotate_optionals (state c))"
    and v2: "list_all (\<lambda>r. isidentifier (type_name r)) (annotate_named_params (state c))"
    by (simp_all add: rules_valid_def)
  show ?thesis
    unfolding Param leave_Param.simps
    using annotate_first_returns [OF v1, of c n upd True]
      annotate_first_returns [OF v2, of c n upd False]
    by simp
qed

lemma completesI:
  assumes "\<And>c. stacks_nonempty c \<Longrightarrow> rules_valid c \<Longrightarrow> \<not> irregular x
             \<Longrightarrow> \<exists>res. f c x = Inr res"
  shows "completes f irregular x"
  using assms unfolding completes_def by blast

lemma completesD:
  assumes "completes f irregular x" and "tracks f ret rai yld lam x"
    and "stacks_nonempty c" and "rules_valid c" and "\<not> irregular x"
  obtains x' imps where "f c x = Inr (x', after (ret x) (rai x) (yld x) (lam x) imps c)"
proof -
  from assms(1,3,4,5) have "\<exists>res. f c x = Inr res"
    unfolding completes_def by blast
  with assms(2,3) show thesis
    by (rule tracksD) (rule that)
qed

lemma completes_sequence:
  assumes "\<And>x. x \<in> set xs \<Longrightarrow> tracks f ret rai yld lam x"
    and "\<And>x. x \<in> set xs \<Longrightarrow> completes f irregular x"
  shows "completes (visit_sequence f) (list_ex irregular) xs"
  using assms
proof (induction xs)
  case Nil
  show ?case by (rule completesI) simp
next
  case (Cons x xs)
  have t_x: "tracks f ret rai yld lam x" and c_x: "completes f irregular x"
    using Cons.prems by simp_all
  have c_xs: "completes (visit_sequence f) (list_ex irregular) xs"
    using Cons by simp
  show ?case
  proof (rule completesI)
    fix c
    assume ok: "stacks_nonempty c" and valid: "rules_valid c"
      and reg: "\<not> list_ex irregular (x # xs)"
    from reg have reg_x: "\<not> irregular x" and reg_xs: "\<not> list_ex irregular xs"
      by simp_all
    from c_x t_x ok valid reg_x obtain x' i1 where
      1: "f c x = Inr (x', after (ret x) (rai x) (yld x) (lam x) i1 c)"
      by (rule completesD)
    let ?c1 = "after (ret x) (rai x) (yld x) (lam x) i1 c"
    have "stacks_nonempty ?c1" and "rules_valid ?c1"
      using ok valid by simp_all
    with c_xs reg_xs obtain res where 2: "visit_sequence f ?c1 xs = Inr res"
      unfolding completes_def by blast
    obtain xs' c' where "res = (xs', c')" by (cases res)
    with 1 2 show "\<exists>res. visit_sequence f c (x # xs) = Inr res"
      by simp
  qed
qed

lemma completes_optional:
  assumes "\<And>x. v = Some x \<Longrightarrow> completes f irregular x"
  shows "completes (visit_optional f) (option_ex irregular) v"
proof (cases v)
  case None
  show ?thesis unfolding None by (rule completesI) simp
next
  case (Some x)
  with assms have c_x: "completes f irregular x" by simp
  show ?thesis
    unfolding Some
  proof (rule completesI)
    fix c
    assume ok: "stacks_nonempty c" and valid: "rules_valid c"
      and reg: "\<not> option_ex irregular (Some x)"
    from reg have "\<not> irregular x" by simp
    with c_x ok valid obtain res where 1: "f c x = Inr res"
      unfolding completes_def by blast
    obtain x' c' where "res = (x', c')" by (cases res)
    with 1 show "\<exists>res. visit_optional f c (Some x) = Inr res"
      by simp
  qed
qed

text \<open>
  Inside a lambda, with the flag set: a parameter without annotation whose default holds
  no lambda comes back without annotation, and the flag is still set after it.
\<close>

lemma visit_param_in_lambda:
  assumes ok: "stacks_nonempty c" and flag: "in_lambda (state c)"
    and plain: "annotation_of p = None" "\<not> param_contains_lambda p"
    and run: "visit_param c p = Inr (p', c')"
  shows "annotation_of p' = None \<and> in_lambda (state c') \<and> stacks_nonempty c'"
proof (cases p)
  case (Param n a d)
  with plain have a: "a = None" and d: "\<not> option_ex contains_lambda d"
    by simp_all
  from run obtain d' c2 where 1: "visit_optional visit_expr c d = Inr (d', c2)"
    and 2: "leave_Param c2 (Param n None d) (Param n None d') = Inr (p', c')"
    unfolding Param a by (auto split: sum.splits)
  have "tracks (visit_optional visit_expr) (option_ex (\<lambda>_. False)) (option_ex (\<lambda>_. False))
          (option_ex contains_yield) (option_ex contains_lambda) d"
    by (rule tracks_optional) (rule tracks_expr)
  from this ok 1 obtain i where
    c2: "c2 = after False False (option_ex contains_yield d) (option_ex contains_lambda d) i c"
    by (auto elim!: tracksD)
  have flag2: "in_lambda (state c2)" and ok2: "stacks_nonempty c2"
    unfolding c2 using flag d ok by simp_all
  from 2 flag2 have "p' = Param n None d'" and "c' = c2"
    by simp_all
  with flag2 ok2 show ?thesis by simp
qed

lemma visit_params_in_lambda:
  assumes "stacks_nonempty c" and "in_lambda (state c)"
    and "\<not> list_ex (\<lambda>p. annotation_of p \<noteq> None) ps" and "\<not> list_ex param_contains_lambda ps"
    and "visit_sequence visit_param c ps = Inr (ps', c')"
  shows "\<not> list_ex (\<lambda>p. annotation_of p \<noteq> None) ps'"
  using assms
proof (induction ps arbitrary: c ps' c')
  case Nil
  then show ?case by simp
next
  case (Cons p ps)
  from Cons.prems(5) obtain p' c1 qs where 1: "visit_param c p = Inr (p', c1)"
    and 2: "visit_sequence visit_param c1 ps = Inr (qs, c')" and ps': "ps' = p' # qs"
    by (auto split: sum.splits)
  from Cons.prems(3,4) have "annotation_of p = None" and "\<not> param_contains_lambda p"
    by simp_all
  with Cons.prems(1,2) have p': "annotation_of p' = None \<and> in_lambda (state c1)
      \<and> stacks_nonempty c1"
    using 1 by (rule visit_param_in_lambda)
  from Cons.prems(3,4) have "\<not> list_ex (\<lambda>p. annotation_of p \<noteq> None) ps"
    and "\<not> list_ex param_contains_lambda ps"
    by simp_all
  with p' 2 have "\<not> list_ex (\<lambda>p. annotation_of p \<noteq> None) qs"
    using Cons.IH by blast
  with p' ps' show ?case by simp
qed

lemma completes_expr:
  "completes visit_expr irregular_lambda e"
  and completes_param:
  "completes visit_param irregular_lambda_param p"
proof (induction e and p)
  case (Name v)
  show ?case by (rule completesI) simp
next
  case (Lambda params body)
  have t_ps: "tracks (visit_sequence visit_param) (list_ex (\<lambda>_. False)) (list_ex (\<lambda>_. False))
              (list_ex param_contains_yield) (list_ex param_contains_lambda) params"
    by (rule tracks_sequence) (rule tracks_param)
  have c_ps: "completes (visit_sequence visit_param) (list_ex irregular_lambda_param) params"
    by (rule completes_sequence, rule tracks_param, simp add: Lambda.IH(1))
  show ?case
  proof (rule completesI)
    fix c
    assume ok: "stacks_nonempty c" and valid: "rules_valid c"
      and reg: "\<not> irregular_lambda (Lambda params body)"
    let ?c0 = "visit_Lambda c"
    have ok0: "stacks_nonempty ?c0" and flag0: "in_lambda (state ?c0)"
      using ok by (simp_all add: stacks_nonempty_def visit_Lambda_def)
    have valid0: "rules_valid ?c0" using valid by simp
    from reg have plain: "\<not> list_ex (\<lambda>p. annotation_of p \<noteq> None) params"
      "\<not> list_ex param_contains_lambda params"
      and reg_ps: "\<not> list_ex irregular_lambda_param params"
      and reg_b: "\<not> irregular_lambda body"
      by simp_all
    from c_ps t_ps ok0 valid0 reg_ps obtain params' i1 where
      1: "visit_sequence visit_param ?c0 params =
            Inr (params', after (list_ex (\<lambda>_. False) params) (list_ex (\<lambda>_. False) params)
                   (list_ex param_contains_yield params)
                   (list_ex param_contains_lambda params) i1 ?c0)"
      by (rule completesD)
    let ?c1 = "after (list_ex (\<lambda>_. False) params) (list_ex (\<lambda>_. False) params)
                   (list_ex param_contains_yield params)
                   (list_ex param_contains_lambda params) i1 ?c0"
    have unannotated: "\<not> list_ex (\<lambda>p. annotation_of p \<noteq> None) params'"
      using ok0 flag0 plain 1 by (rule visit_params_in_lambda)
    have "stacks_nonempty ?c1" and "rules_valid ?c1"
      using ok0 valid0 by simp_all
    with Lambda.IH(2) reg_b obtain res where 2: "visit_expr ?c1 body = Inr res"
      unfolding completes_def by blast
    obtain body' c2 where res: "res = (body', c2)" by (cases res)
    show "\<exists>res. visit_expr c (Lambda params body) = Inr res"
      using unannotated
      by (simp add: 1 2 res new_Lambda_def del: after_after list_ex_never)
  qed
next
  case (Yield v)
  have c_v: "completes (visit_optional visit_expr) (option_ex irregular_lambda) v"
    by (rule completes_optional) (simp add: Yield.IH)
  show ?case
  proof (rule completesI)
    fix c
    assume ok: "stacks_nonempty c" and valid: "rules_valid c"
      and reg: "\<not> irregular_lambda (Yield v)"
    let ?c1 = "after False False True False [] c"
    from reg have reg_v: "\<not> option_ex irregular_lambda v" by simp
    have "stacks_nonempty ?c1" and "rules_valid ?c1"
      using ok valid by simp_all
    with c_v reg_v obtain res where 1: "visit_optional visit_expr ?c1 v = Inr res"
      unfolding completes_def by blast
    obtain v' c2 where "res = (v', c2)" by (cases res)
    with 1 show "\<exists>res. visit_expr c (Yield v) = Inr res"
      by (simp add: visit_Yield_after [OF ok])
  qed
next
  case (Subscript v slice)
  have t_sl: "tracks (visit_sequence visit_expr) (list_ex (\<lambda>_. False)) (list_ex (\<lambda>_. False))
              (list_ex contains_yield) (list_ex contains_lambda) slice"
    by (rule tracks_sequence) (rule tracks_expr)
  have c_sl: "completes (visit_sequence visit_expr) (list_ex irregular_lambda) slice"
    by (rule completes_sequence, rule tracks_expr, simp add: Subscript.IH(2))
  show ?case
  proof (rule completesI)
    fix c
    assume ok: "stacks_nonempty c" and valid: "rules_valid c"
      and reg: "\<not> irregular_lambda (Subscript v slice)"
    from reg have reg_v: "\<not> irregular_lambda v" and reg_sl: "\<not> list_ex irregular_lambda slice"
      by simp_all
    from Subscript.IH(1) tracks_expr ok valid reg_v obtain v' i1 where
      1: "visit_expr c v =
            Inr (v', after False False (contains_yield v) (contains_lambda v) i1 c)"
      by (rule completesD)
    let ?c1 = "after False False (contains_yield v) (contains_lambda v) i1 c"
    have "stacks_nonempty ?c1" and "rules_valid ?c1"
      using ok valid by simp_all
    with c_sl reg_sl obtain res where 2: "visit_sequence visit_expr ?c1 slice = Inr res"
      unfolding completes_def by blast
    obtain slice' c2 where "res = (slice', c2)" by (cases res)
    with 1 2 show "\<exists>res. visit_expr c (Subscript v slice) = Inr res"
      by simp
  qed
next
  case (OtherExpr l es)
  have c_es: "completes (visit_sequence visit_expr) (list_ex irregular_lambda) es"
    by (rule completes_sequence, rule tracks_expr, simp add: OtherExpr.IH)
  show ?case
  proof (rule completesI)
    fix c
    assume ok: "stacks_nonempty c" and valid: "rules_valid c"
      and reg: "\<not> irregular_lambda (OtherExpr l es)"
    from reg have "\<not> list_ex irregular_lambda es" by simp
    with c_es ok valid obtain res where 1: "visit_sequence visit_expr c es = Inr res"
      unfolding completes_def by blast
    obtain es' c1 where "res = (es', c1)" by (cases res)
    with 1 show "\<exists>res. visit_expr c (OtherExpr l es) = Inr res"
      by simp
  qed
next
  case (Param n a d)
  have t_a: "tracks (visit_optional visit_expr) (option_ex (\<lambda>_. False)) (option_ex (\<lambda>_. False))
              (option_ex contains_yield) (option_ex contains_lambda) a"
    by (rule tracks_optional) (rule tracks_expr)
  have t_d: "tracks (visit_optional visit_expr) (option_ex (\<lambda>_. False)) (option_ex (\<lambda>_. False))
              (option_ex contains_yield) (option_ex contains_lambda) d"
    by (rule tracks_optional) (rule tracks_expr)
  have c_a: "completes (visit_optional visit_expr) (option_ex irregular_lambda) a"
    by (rule completes_optional) (simp add: Param.IH(1))
  have c_d: "completes (visit_optional visit_expr) (option_ex irregular_lambda) d"
    by (rule completes_optional) (simp add: Param.IH(2))
  show ?case
  proof (rule completesI)
    fix c
    assume ok: "stacks_nonempty c" and valid: "rules_valid c"
      and reg: "\<not> irregular_lambda_param (Param n a d)"
    from reg have reg_a: "\<not> option_ex irregular_lambda a"
      and reg_d: "\<not> option_ex irregular_lambda d"
      by simp_all
    from c_a t_a ok valid reg_a obtain a' i1 where
      1: "visit_optional visit_expr c a =
            Inr (a', after (option_ex (\<lambda>_. False) a) (option_ex (\<lambda>_. False) a)
                   (option_ex contains_yield a) (option_ex contains_lambda a) i1 c)"
      by (rule completesD)
    let ?c1 = "after (option_ex (\<lambda>_. False) a) (option_ex (\<lambda>_. False) a)
                   (option_ex contains_yield a) (option_ex contains_lambda a) i1 c"
    have ok1: "stacks_nonempty ?c1" and valid1: "rules_valid ?c1"
      using ok valid by simp_all
    from c_d t_d ok1 valid1 reg_d obtain d' i2 where
      2: "visit_optional visit_expr ?c1 d =
            Inr (d', after (option_ex (\<lambda>_. False) d) (option_ex (\<lambda>_. False) d)
                   (option_ex contains_yield d) (option_ex contains_lambda d) i2 ?c1)"
      by (rule completesD)
    let ?c2 = "after (option_ex (\<lambda>_. False) d) (option_ex (\<lambda>_. False) d)
                   (option_ex contains_yield d) (option_ex contains_lambda d) i2 ?c1"
    have "rules_valid ?c2" using valid1 by (simp del: after_after)
    then obtain res where
      3: "leave_Param ?c2 (Param n a d) (Param n a' d') = Inr res"
      using leave_Param_returns by blast
    show "\<exists>res. visit_param c (Param n a d) = Inr res"
      by (simp add: 1 2 3 del: after_after option_ex_never leave_Param.simps)
  qed
qed

lemma completes_stmt:
  "completes visit_stmt irregular_lambda_stmt s"
  and completes_funcdef:
  "completes visit_funcdef irregular_lambda_funcdef f"
proof (induction s and f)
  case (FunctionDefStmt f)
  show ?case
  proof (rule completesI)
    fix c
    assume ok: "stacks_nonempty c" and valid: "rules_valid c"
      and reg: "\<not> irregular_lambda_stmt (FunctionDefStmt f)"
    from reg have "\<not> irregular_lambda_funcdef f" by simp
    with FunctionDefStmt.IH ok valid obtain res where 1: "visit_funcdef c f = Inr res"
      unfolding completes_def by blast
    obtain f' c1 where "res = (f', c1)" by (cases res)
    with 1 show "\<exists>res. visit_stmt c (FunctionDefStmt f) = Inr res"
      by simp
  qed
next
  case (Return v)
  have c_v: "completes (visit_optional visit_expr) (option_ex irregular_lambda) v"
    by (rule completes_optional) (rule completes_expr)
  show ?case
  proof (rule completesI)
    fix c
    assume ok: "stacks_nonempty c" and valid: "rules_valid c"
      and reg: "\<not> irregular_lambda_stmt (Return v)"
    let ?c1 = "after (v \<noteq> None) False False False [] c"
    from reg have reg_v: "\<not> option_ex irregular_lambda v" by simp
    have "stacks_nonempty ?c1" and "rules_valid ?c1"
      using ok valid by simp_all
    with c_v reg_v obtain res where 1: "visit_optional visit_expr ?c1 v = Inr res"
      unfolding completes_def by blast
    obtain v' c2 where "res = (v', c2)" by (cases res)
    with 1 show "\<exists>res. visit_stmt c (Return v) = Inr res"
      by (simp add: visit_Return_after [OF ok] del: not_None_eq)
  qed
next
  case (Raise exc cause)
  have t_o: "tracks (visit_optional visit_expr) (option_ex (\<lambda>_. False)) (option_ex (\<lambda>_. False))
              (option_ex contains_yield) (option_ex contains_lambda) v" for v
    by (rule tracks_optional) (rule tracks_expr)
  have c_o: "completes (visit_optional visit_expr) (option_ex irregular_lambda) v" for v
    by (rule completes_optional) (rule completes_expr)
  show ?case
  proof (rule completesI)
    fix c
    assume ok: "stacks_nonempty c" and valid: "rules_valid c"
      and reg: "\<not> irregular_lambda_stmt (Raise exc cause)"
    from reg have reg_e: "\<not> option_ex irregular_lambda exc"
      and reg_c: "\<not> option_ex irregular_lambda cause"
      by simp_all
    let ?c0 = "after False True False False [] c"
    have ok0: "stacks_nonempty ?c0" and valid0: "rules_valid ?c0"
      using ok valid by simp_all
    from c_o t_o ok0 valid0 reg_e obtain exc' i1 where
      1: "visit_optional visit_expr ?c0 exc =
            Inr (exc', after (option_ex (\<lambda>_. False) exc) (option_ex (\<lambda>_. False) exc)
                   (option_ex contains_yield exc) (option_ex contains_lambda exc) i1 ?c0)"
      by (rule completesD)
    let ?c1 = "after (option_ex (\<lambda>_. False) exc) (option_ex (\<lambda>_. False) exc)
                   (option_ex contains_yield exc) (option_ex contains_lambda exc) i1 ?c0"
    have "stacks_nonempty ?c1" and "rules_valid ?c1"
      using ok valid by simp_all
    with c_o reg_c obtain res where 2: "visit_optional visit_expr ?c1 cause = Inr res"
      unfolding completes_def by blast
    obtain cause' c2 where res: "res = (cause', c2)" by (cases res)
    show "\<exists>res. visit_stmt c (Raise exc cause) = Inr res"
      by (simp add: visit_Raise_after [OF ok] 1 2 res del: after_after option_ex_never)
  qed
next
  case (SimpleStmt es)
  have c_es: "completes (visit_sequence visit_expr) (list_ex irregular_lambda) es"
    by (rule completes_sequence, rule tracks_expr, simp add: completes_expr)
  show ?case
  proof (rule completesI)
    fix c
    assume ok: "stacks_nonempty c" and valid: "rules_valid c"
      and reg: "\<not> irregular_lambda_stmt (SimpleStmt es)"
    from reg have "\<not> list_ex irregular_lambda es" by simp
    with c_es ok valid obtain res where 1: "visit_sequence visit_expr c es = Inr res"
      unfolding completes_def by blast
    obtain es' c1 where "res = (es', c1)" by (cases res)
    with 1 show "\<exists>res. visit_stmt c (SimpleStmt es) = Inr res"
      by simp
  qed
next
  case (CompoundStmt ss)
  have c_ss: "completes (visit_sequence visit_stmt) (list_ex irregular_lambda_stmt) ss"
    by (rule completes_sequence, rule tracks_stmt, simp add: CompoundStmt.IH)
  show ?case
  proof (rule completesI)
    fix c
    assume ok: "stacks_nonempty c" and valid: "rules_valid c"
      and reg: "\<not> irregular_lambda_stmt (CompoundStmt ss)"
    from reg have "\<not> list_ex irregular_lambda_stmt ss" by simp
    with c_ss ok valid obtain res where 1: "visit_sequence visit_stmt c ss = Inr res"
      unfolding completes_def by blast
    obtain ss' c1 where "res = (ss', c1)" by (cases res)
    with 1 show "\<exists>res. visit_stmt c (CompoundStmt ss) = Inr res"
      by simp
  qed
next
  case (FunctionDef ds n ps r b)
  have t_ds: "tracks (visit_sequence visit_expr) (list_ex (\<lambda>_. False)) (list_ex (\<lambda>_. False))
              (list_ex contains_yield) (list_ex contains_lambda) ds"
    by (rule tracks_sequence) (rule tracks_expr)
  have c_ds: "completes (visit_sequence visit_expr) (list_ex irregular_lambda) ds"
    by (rule completes_sequence, rule tracks_expr, simp add: completes_expr)
  have t_ps: "tracks (visit_sequence visit_param) (list_ex (\<lambda>_. False)) (list_ex (\<lambda>_. False))
              (list_ex param_contains_yield) (list_ex param_contains_lambda) ps"
    by (rule tracks_sequence) (rule tracks_param)
  have c_ps: "completes (visit_sequence visit_param) (list_ex irregular_lambda_param) ps"
    by (rule completes_sequence, rule tracks_param, simp add: completes_param)
  have t_r: "tracks (visit_optional visit_expr) (option_ex (\<lambda>_. False)) (option_ex (\<lambda>_. False))
              (option_ex contains_yield) (option_ex contains_lambda) r"
    by (rule tracks_optional) (rule tracks_expr)
  have c_r: "completes (visit_optional visit_expr) (option_ex irregular_lambda) r"
    by (rule completes_optional) (rule completes_expr)
  have t_b: "tracks (visit_sequence visit_stmt) (list_ex return_in_scope)
              (list_ex raise_in_scope) (list_ex yield_in_scope) (list_ex lambda_in_stmt) b"
    by (rule tracks_sequence) (rule tracks_stmt)
  have c_b: "completes (visit_sequence visit_stmt) (list_ex irregular_lambda_stmt) b"
    by (rule completes_sequence, rule tracks_stmt, simp add: FunctionDef.IH)
  show ?case
  proof (rule completesI)
    fix c
    assume ok: "stacks_nonempty c" and valid: "rules_valid c"
      and reg: "\<not> irregular_lambda_funcdef (FunctionDef ds n ps r b)"
    from reg have reg_ds: "\<not> list_ex irregular_lambda ds"
      and reg_ps: "\<not> list_ex irregular_lambda_param ps"
      and reg_r: "\<not> option_ex irregular_lambda r"
      and reg_b: "\<not> list_ex irregular_lambda_stmt b"
      by simp_all
    let ?c0 = "visit_FunctionDef c"
    have ok0: "stacks_nonempty ?c0" and valid0: "rules_valid ?c0"
      using valid by simp_all
    from c_ds t_ds ok0 valid0 reg_ds obtain ds' i1 where
      1: "visit_sequence visit_expr ?c0 ds =
            Inr (ds', after (list_ex (\<lambda>_. False) ds) (list_ex (\<lambda>_. False) ds)
                   (list_ex contains_yield ds) (list_ex contains_lambda ds) i1 ?c0)"
      by (rule completesD)
    let ?c1 = "after (list_ex (\<lambda>_. False) ds) (list_ex (\<lambda>_. False) ds)
                   (list_ex contains_yield ds) (list_ex contains_lambda ds) i1 ?c0"
    have ok1: "stacks_nonempty ?c1" and valid1: "rules_valid ?c1"
      using valid by simp_all
    from c_ps t_ps ok1 valid1 reg_ps obtain ps' i2 where
      2: "visit_sequence visit_param ?c1 ps =
            Inr (ps', after (list_ex (\<lambda>_. False) ps) (list_ex (\<lambda>_. False) ps)
                   (list_ex param_contains_yield ps) (list_ex param_contains_lambda ps) i2 ?c1)"
      by (rule completesD)
    let ?c2 = "after (list_ex (\<lambda>_. False) ps) (list_ex (\<lambda>_. False) ps)
                   (list_ex param_contains_yield ps) (list_ex param_contains_lambda ps) i2 ?c1"
    have ok2: "stacks_nonempty ?c2" and valid2: "rules_valid ?c2"
      using valid by simp_all
    from c_r t_r ok2 valid2 reg_r obtain r' i3 where
      3: "visit_optional visit_expr ?c2 r =
            Inr (r', after (option_ex (\<lambda>_. False) r) (option_ex (\<lambda>_. False) r)
                   (option_ex contains_yield r) (option_ex contains_lambda r) i3 ?c2)"
      by (rule completesD)
    let ?c3 = "after (option_ex (\<lambda>_. False) r) (option_ex (\<lambda>_. False) r)
                   (option_ex contains_yield r) (option_ex contains_lambda r) i3 ?c2"
    have ok3: "stacks_nonempty ?c3" and valid3: "rules_valid ?c3"
      using valid by simp_all
    from c_b t_b ok3 valid3 reg_b obtain b' i4 where
      4: "visit_sequence visit_stmt ?c3 b =
            Inr (b', after (list_ex return_in_scope b) (list_ex raise_in_scope b)
                   (list_ex yield_in_scope b) (list_ex lambda_in_stmt b) i4 ?c3)"
      by (rule completesD)
    let ?c4 = "after (list_ex return_in_scope b) (list_ex raise_in_scope b)
                   (list_ex yield_in_scope b) (list_ex lambda_in_stmt b) i4 ?c3"
    have ok4: "stacks_nonempty ?c4" by simp
    obtain f' i5 where
      5: "leave_FunctionDef ?c4 (FunctionDef ds n ps r b) (FunctionDef ds' n ps' r' b') =
            Inr (f', after False False False False i5 (pop_frames ?c4))"
      using leave_FunctionDef_after [OF ok4] by blast
    show "\<exists>res. visit_funcdef c (FunctionDef ds n ps r b) = Inr res"
      by (simp add: 1 2 3 4 5
          del: after_after list_ex_never option_ex_never leave_FunctionDef.simps)
  qed
qed

lemma transform_module_impl_completes:
  assumes "stacks_nonempty c" and "rules_valid c" and "\<not> list_ex irregular_lambda_stmt tree"
  shows "\<exists>tree' c'. transform_module_impl c tree = Inr (tree', c')"
proof -
  have "completes (visit_sequence visit_stmt) (list_ex irregular_lambda_stmt) tree"
    by (rule completes_sequence, rule tracks_stmt, simp add: completes_stmt)
  with assms obtain res where "visit_sequence visit_stmt c tree = Inr res"
    unfolding completes_def by blast
  then show ?thesis
    by (cases res) (simp add: transform_module_impl_def)
qed

section \<open>Scope frames\<close>

lemma mark_butlast_last: "xs \<noteq> [] \<Longrightarrow> mark b xs = butlast xs @ [last xs \<or> b]"
  by (cases xs rule: rev_cases) simp_all

lemma seen_return_after [simp]:
  "seen_return_statement (state (after r a y l i c)) = mark r (seen_return_statement (state c))"
  by (simp add: after_def)

lemma seen_raise_after [simp]:
  "seen_raise_statement (state (after r a y l i c)) = mark a (seen_raise_statement (state c))"
  by (simp add: after_def)

lemma seen_yield_after [simp]:
  "seen_yield (state (after r a y l i c)) = mark y (seen_yield (state c))"
  by (simp add: after_def)

lemma init_stacks:
  assumes "init ao an mg im nr bp = Inr c0"
  shows "seen_return_statement (state c0) = [False]
       \<and> seen_raise_statement (state c0) = [False]
       \<and> seen_yield (state c0) = [False] \<and> \<not> in_lambda (state c0)
       \<and> needed_imports c0 = []"
  using assms by (auto simp: init_def split: sum.splits)

text \<open>
  Claim C6. From a command with non-empty stacks: a \<open>return\<close> with a value, a \<open>raise\<close>
  and a \<open>yield\<close> each set the top frame of their own stack and change nothing else, and
  a bare \<open>return\<close> changes nothing. The visit of any statement raises nothing but the
  library's validation error, and when it returns it has left the frames below the top as
  they were and has set the top frame of each stack exactly when the statement holds the
  fact outside every function definition nested in it: so a fact inside a compound
  statement reaches the enclosing frame, and the visit of a nested function definition
  leaves all three stacks as they were. The frame a function definition is left with, on
  top of the stacks as they were on entry, holds exactly the facts of that function's
  own children: this is the state of the stacks once the decorators, the parameters, the
  return annotation and the body have been visited, and it is what \<open>leave_FunctionDef\<close>
  is called with.
\<close>

theorem facts_recorded_on_innermost_frame:
  assumes "stacks_nonempty c"
  shows
    "visit_Return c (Some v) =
        Inr (c\<lparr>state := (state c)\<lparr>seen_return_statement :=
               butlast (seen_return_statement (state c)) @ [True]\<rparr>\<rparr>)
     \<and> visit_Return c None = Inr c
     \<and> visit_Raise c =
        Inr (c\<lparr>state := (state c)\<lparr>seen_raise_statement :=
               butlast (seen_raise_statement (state c)) @ [True]\<rparr>\<rparr>)
     \<and> visit_Yield c =
        Inr (c\<lparr>state := (state c)\<lparr>seen_yield :=
               butlast (seen_yield (state c)) @ [True]\<rparr>\<rparr>)
     \<and> (visit_stmt c s = Inl CSTValidationError
        \<or> (\<exists>s' c'. visit_stmt c s = Inr (s', c')
          \<and> seen_return_statement (state c') =
              butlast (seen_return_statement (state c))
                @ [last (seen_return_statement (state c)) \<or> return_in_scope s]
          \<and> seen_raise_statement (state c') =
              butlast (seen_raise_statement (state c))
                @ [last (seen_raise_statement (state c)) \<or> raise_in_scope s]
          \<and> seen_yield (state c') =
              butlast (seen_yield (state c))
                @ [last (seen_yield (state c)) \<or> yield_in_scope s]))
     \<and> (visit_stmt c (FunctionDefStmt f) = Inl CSTValidationError
        \<or> (\<exists>f' c'. visit_stmt c (FunctionDefStmt f) = Inr (FunctionDefStmt f', c')
          \<and> seen_return_statement (state c') = seen_return_statement (state c)
          \<and> seen_raise_statement (state c') = seen_raise_statement (state c)
          \<and> seen_yield (state c') = seen_yield (state c)))
     \<and> (visit_funcdef c f = Inl CSTValidationError
        \<or> (\<exists>c4 upd. visit_funcdef c f = leave_FunctionDef c4 f upd
          \<and> seen_return_statement (state c4) = seen_return_statement (state c) @ [own_return f]
          \<and> seen_raise_statement (state c4) = seen_raise_statement (state c) @ [own_raise f]
          \<and> seen_yield (state c4) = seen_yield (state c) @ [own_yield f]))
     \<and> (visit_sequence visit_expr (visit_FunctionDef c) ds = Inr (ds', c1)
          \<and> visit_sequence visit_param c1 ps = Inr (ps', c2)
          \<and> visit_optional visit_expr c2 r = Inr (r', c3)
          \<and> visit_sequence visit_stmt c3 b = Inr (b', c4) \<longrightarrow>
        seen_return_statement (state c4)
          = seen_return_statement (state c) @ [own_return (FunctionDef ds n ps r b)]
        \<and> seen_raise_statement (state c4)
          = seen_raise_statement (state c) @ [own_raise (FunctionDef ds n ps r b)]
        \<and> seen_yield (state c4)
          = seen_yield (state c) @ [own_yield (FunctionDef ds n ps r b)]
        \<and> visit_funcdef c (FunctionDef ds n ps r b)
          = leave_FunctionDef c4 (FunctionDef ds n ps r b) (FunctionDef ds' n ps' r' b'))"
proof -
  have ne: "seen_return_statement (state c) \<noteq> []" "seen_raise_statement (state c) \<noteq> []"
    "seen_yield (state c) \<noteq> []"
    using assms by (simp_all add: stacks_nonempty_def)
  have ret: "visit_Return c (Some v) =
        Inr (c\<lparr>state := (state c)\<lparr>seen_return_statement :=
               butlast (seen_return_statement (state c)) @ [True]\<rparr>\<rparr>)"
    using ne(1) mark_butlast_last [of "seen_return_statement (state c)" True]
    by (simp add: visit_Return_def set_last_True_def mark_def)
  have bare: "visit_Return c None = Inr c"
    by (simp add: visit_Return_def)
  have rai: "visit_Raise c =
        Inr (c\<lparr>state := (state c)\<lparr>seen_raise_statement :=
               butlast (seen_raise_statement (state c)) @ [True]\<rparr>\<rparr>)"
    using ne(2) mark_butlast_last [of "seen_raise_statement (state c)" True]
    by (simp add: visit_Raise_def set_last_True_def mark_def)
  have yld: "visit_Yield c =
        Inr (c\<lparr>state := (state c)\<lparr>seen_yield :=
               butlast (seen_yield (state c)) @ [True]\<rparr>\<rparr>)"
    using ne(3) mark_butlast_last [of "seen_yield (state c)" True]
    by (simp add: visit_Yield_def set_last_True_def mark_def)
  have stmt: "visit_stmt c s = Inl CSTValidationError
        \<or> (\<exists>s' c'. visit_stmt c s = Inr (s', c')
          \<and> seen_return_statement (state c') =
              butlast (seen_return_statement (state c))
                @ [last (seen_return_statement (state c)) \<or> return_in_scope s]
          \<and> seen_raise_statement (state c') =
              butlast (seen_raise_statement (state c))
                @ [last (seen_raise_statement (state c)) \<or> raise_in_scope s]
          \<and> seen_yield (state c') =
              butlast (seen_yield (state c))
                @ [last (seen_yield (state c)) \<or> yield_in_scope s])" for s
    using tracks_stmt [of s] assms
  proof (cases rule: tracksE)
    case fail
    then show ?thesis by blast
  next
    case (good s' imps)
    then show ?thesis
      using ne by (simp add: mark_butlast_last)
  qed
  have nested: "visit_stmt c (FunctionDefStmt f) = Inl CSTValidationError
        \<or> (\<exists>f' c'. visit_stmt c (FunctionDefStmt f) = Inr (FunctionDefStmt f', c')
          \<and> seen_return_statement (state c') = seen_return_statement (state c)
          \<and> seen_raise_statement (state c') = seen_raise_statement (state c)
          \<and> seen_yield (state c') = seen_yield (state c))"
    using tracks_funcdef [of f] assms
  proof (cases rule: tracksE)
    case fail
    then show ?thesis by simp
  next
    case (good f' imps)
    then show ?thesis by simp
  qed
  have frame: "visit_funcdef c f = Inl CSTValidationError
        \<or> (\<exists>c4 upd. visit_funcdef c f = leave_FunctionDef c4 f upd
          \<and> seen_return_statement (state c4) = seen_return_statement (state c) @ [own_return f]
          \<and> seen_raise_statement (state c4) = seen_raise_statement (state c) @ [own_raise f]
          \<and> seen_yield (state c4) = seen_yield (state c) @ [own_yield f])"
  proof (cases f)
    case (FunctionDef ds n ps r b)
    from visit_funcdef_children [OF tracks_stmt assms]
    consider (fail) "visit_funcdef c (FunctionDef ds n ps r b) = Inl CSTValidationError"
      | (good) ds' ps' r' b' imps where
        "visit_funcdef c (FunctionDef ds n ps r b) =
            leave_FunctionDef
              (after (own_return (FunctionDef ds n ps r b)) (own_raise (FunctionDef ds n ps r b))
                 (own_yield (FunctionDef ds n ps r b))
                 (lambda_in_funcdef (FunctionDef ds n ps r b)) imps (visit_FunctionDef c))
              (FunctionDef ds n ps r b) (FunctionDef ds' n ps' r' b')"
      by blast
    then show ?thesis
    proof cases
      case fail
      then show ?thesis unfolding FunctionDef by blast
    next
      case good
      let ?c4 = "after (own_return f) (own_raise f) (own_yield f) (lambda_in_funcdef f) imps
                   (visit_FunctionDef c)"
      have "visit_funcdef c f = leave_FunctionDef ?c4 f (FunctionDef ds' n ps' r' b')"
        using good by (simp only: FunctionDef)
      moreover have "seen_return_statement (state ?c4)
          = seen_return_statement (state c) @ [own_return f]"
        and "seen_raise_statement (state ?c4) = seen_raise_statement (state c) @ [own_raise f]"
        and "seen_yield (state ?c4) = seen_yield (state c) @ [own_yield f]"
        by (simp_all add: visit_FunctionDef_def)
      ultimately show ?thesis by blast
    qed
  qed
  have children: "seen_return_statement (state c4)
          = seen_return_statement (state c) @ [own_return (FunctionDef ds n ps r b)]
        \<and> seen_raise_statement (state c4)
          = seen_raise_statement (state c) @ [own_raise (FunctionDef ds n ps r b)]
        \<and> seen_yield (state c4)
          = seen_yield (state c) @ [own_yield (FunctionDef ds n ps r b)]
        \<and> visit_funcdef c (FunctionDef ds n ps r b)
          = leave_FunctionDef c4 (FunctionDef ds n ps r b) (FunctionDef ds' n ps' r' b')"
    if v1: "visit_sequence visit_expr (visit_FunctionDef c) ds = Inr (ds', c1)"
      and v2: "visit_sequence visit_param c1 ps = Inr (ps', c2)"
      and v3: "visit_optional visit_expr c2 r = Inr (r', c3)"
      and v4: "visit_sequence visit_stmt c3 b = Inr (b', c4)"
  proof -
    from visit_funcdef_chain(1) [OF assms v1 v2 v3 v4, of n] obtain imps where
      c4: "c4 = after (own_return (FunctionDef ds n ps r b))
             (own_raise (FunctionDef ds n ps r b)) (own_yield (FunctionDef ds n ps r b))
             (lambda_in_funcdef (FunctionDef ds n ps r b)) imps (visit_FunctionDef c)"
      by blast
    have "seen_return_statement (state c4)
          = seen_return_statement (state c) @ [own_return (FunctionDef ds n ps r b)]"
      and "seen_raise_statement (state c4)
          = seen_raise_statement (state c) @ [own_raise (FunctionDef ds n ps r b)]"
      and "seen_yield (state c4)
          = seen_yield (state c) @ [own_yield (FunctionDef ds n ps r b)]"
      unfolding c4 by (simp_all add: visit_FunctionDef_def)
    with visit_funcdef_chain(2) [OF assms v1 v2 v3 v4, of n] show ?thesis by blast
  qed
  from ret bare rai yld stmt nested frame children show ?thesis by blast
qed

theorem facts_recorded_on_innermost_frame_witness:
  "stacks_nonempty
     \<lparr>state = \<lparr>annotate_optionals = [], annotate_named_params = [],
                annotate_magics = False, annotate_imprecise_magics = False,
                none_return = True, bool_param = False,
                seen_return_statement = [False], seen_raise_statement = [False],
                seen_yield = [False], in_lambda = False\<rparr>,
       needed_imports = []\<rparr>
   \<and> (\<exists>s' c'. visit_stmt
         \<lparr>state = \<lparr>annotate_optionals = [], annotate_named_params = [],
                annotate_magics = False, annotate_imprecise_magics = False,
                none_return = True, bool_param = False,
                seen_return_statement = [False], seen_raise_statement = [False],
                seen_yield = [False], in_lambda = False\<rparr>,
           needed_imports = []\<rparr>
         (CompoundStmt [Return (Some (Name ''x'')),
            FunctionDefStmt (FunctionDef [] ''g'' [] None [Raise None None])])
         = Inr (s', c')
       \<and> seen_return_statement (state c') = [True]
       \<and> seen_raise_statement (state c') = [False]
       \<and> seen_yield (state c') = [False])
   \<and> (\<exists>c4 upd. visit_funcdef
         \<lparr>state = \<lparr>annotate_optionals = [], annotate_named_params = [],
                annotate_magics = False, annotate_imprecise_magics = False,
                none_return = True, bool_param = False,
                seen_return_statement = [False], seen_raise_statement = [False],
                seen_yield = [False], in_lambda = False\<rparr>,
           needed_imports = []\<rparr>
         (FunctionDef [] ''g'' [] None [SimpleStmt [Yield None], Return None])
         = leave_FunctionDef c4
             (FunctionDef [] ''g'' [] None [SimpleStmt [Yield None], Return None]) upd
       \<and> seen_return_statement (state c4) = [False, False]
       \<and> seen_raise_statement (state c4) = [False, False]
       \<and> seen_yield (state c4) = [False, True])"
proof -
  let ?c = "\<lparr>state = \<lparr>annotate_optionals = [], annotate_named_params = [],
                annotate_magics = False, annotate_imprecise_magics = False,
                none_return = True, bool_param = False,
                seen_return_statement = [False], seen_raise_statement = [False],
                seen_yield = [False], in_lambda = False\<rparr>,
       needed_imports = []\<rparr>"
  let ?s = "CompoundStmt [Return (Some (Name ''x'')),
            FunctionDefStmt (FunctionDef [] ''g'' [] None [Raise None None])]"
  let ?f = "FunctionDef [] ''g'' [] None [SimpleStmt [Yield None], Return None]"
  have ok: "stacks_nonempty ?c"
    by (simp add: stacks_nonempty_def)
  have r1: "visit_stmt ?c ?s \<noteq> Inl CSTValidationError"
    by (simp add: visit_FunctionDef_def visit_Return_def visit_Raise_def set_last_True_def
        pop_def)
  have r2: "visit_funcdef ?c ?f \<noteq> Inl CSTValidationError"
    by (simp add: visit_FunctionDef_def visit_Return_def visit_Yield_def set_last_True_def
        pop_def)
  from facts_recorded_on_innermost_frame [OF ok, of "Name ''x''" ?s ?f]
  have "visit_stmt ?c ?s = Inl CSTValidationError
       \<or> (\<exists>s' c'. visit_stmt ?c ?s = Inr (s', c')
           \<and> seen_return_statement (state c') = [True]
           \<and> seen_raise_statement (state c') = [False]
           \<and> seen_yield (state c') = [False])"
    and "visit_funcdef ?c ?f = Inl CSTValidationError
       \<or> (\<exists>c4 upd. visit_funcdef ?c ?f = leave_FunctionDef c4 ?f upd
           \<and> seen_return_statement (state c4) = [False, False]
           \<and> seen_raise_statement (state c4) = [False, False]
           \<and> seen_yield (state c4) = [False, True])"
    by (simp_all del: visit_stmt.simps visit_funcdef.simps leave_FunctionDef.simps)
  with ok r1 r2 show ?thesis by blast
qed

text \<open>
  Claim C10. A constructed command has one frame, \<open>False\<close>, on each stack. Entering a
  function definition appends one \<open>False\<close> frame to each stack; leaving one, from
  non-empty stacks, succeeds and removes the last frame of each, whatever the node and
  whether or not an annotation is added. From non-empty stacks no visit raises
  \<open>IndexError\<close>: no \<open>pop()\<close> and no \<open>[-1]\<close> ever meets an empty stack, and the one exception
  a visit can end with is the library's validation error. The visit of a function
  definition that returns has left the three stacks as they were; its exit handler runs
  on the stacks as they were on entry with one frame more on each, so what it pops is the
  frame its own entry pushed and never a frame below. And the traversal of any tree that
  returns has left each stack at its length with the frames below the top untouched. So
  after a complete traversal from a constructed command each stack has length one, and
  the seed frame was never popped. The traversal does complete when the type name of
  every rule is an identifier and no lambda of the tree is irregular (has a parameter
  that carries an annotation, or a lambda in a parameter's default).
\<close>

theorem stacks_balanced:
  "(init ao an mg im nr bp = Inr c0 \<longrightarrow>
      seen_return_statement (state c0) = [False]
      \<and> seen_raise_statement (state c0) = [False]
      \<and> seen_yield (state c0) = [False])
   \<and> (seen_return_statement (state (visit_FunctionDef c))
         = seen_return_statement (state c) @ [False]
      \<and> seen_raise_statement (state (visit_FunctionDef c))
         = seen_raise_statement (state c) @ [False]
      \<and> seen_yield (state (visit_FunctionDef c)) = seen_yield (state c) @ [False])
   \<and> (stacks_nonempty c \<longrightarrow>
        (\<exists>f' c'. leave_FunctionDef c orig upd = Inr (f', c')
           \<and> seen_return_statement (state c') = butlast (seen_return_statement (state c))
           \<and> seen_raise_statement (state c') = butlast (seen_raise_statement (state c))
           \<and> seen_yield (state c') = butlast (seen_yield (state c))))
   \<and> (stacks_nonempty c \<longrightarrow>
        visit_funcdef c f = Inl CSTValidationError
        \<or> (\<exists>f' c'. visit_funcdef c f = Inr (f', c')
           \<and> seen_return_statement (state c') = seen_return_statement (state c)
           \<and> seen_raise_statement (state c') = seen_raise_statement (state c)
           \<and> seen_yield (state c') = seen_yield (state c)))
   \<and> (stacks_nonempty c \<longrightarrow>
        visit_funcdef c f = Inl CSTValidationError
        \<or> (\<exists>c4 upd4 x y z. visit_funcdef c f = leave_FunctionDef c4 f upd4
           \<and> seen_return_statement (state c4) = seen_return_statement (state c) @ [x]
           \<and> seen_raise_statement (state c4) = seen_raise_statement (state c) @ [y]
           \<and> seen_yield (state c4) = seen_yield (state c) @ [z]))
   \<and> (stacks_nonempty c \<longrightarrow>
        transform_module_impl c tree = Inl CSTValidationError
        \<or> (\<exists>tree' c'. transform_module_impl c tree = Inr (tree', c')
           \<and> length (seen_return_statement (state c')) = length (seen_return_statement (state c))
           \<and> length (seen_raise_statement (state c')) = length (seen_raise_statement (state c))
           \<and> length (seen_yield (state c')) = length (seen_yield (state c))
           \<and> butlast (seen_return_statement (state c')) = butlast (seen_return_statement (state c))
           \<and> butlast (seen_raise_statement (state c')) = butlast (seen_raise_statement (state c))
           \<and> butlast (seen_yield (state c')) = butlast (seen_yield (state c))))
   \<and> (init ao an mg im nr bp = Inr c0 \<longrightarrow>
        transform_module_impl c0 tree = Inl CSTValidationError
        \<or> (\<exists>tree' c'. transform_module_impl c0 tree = Inr (tree', c')
           \<and> length (seen_return_statement (state c')) = 1
           \<and> length (seen_raise_statement (state c')) = 1
           \<and> length (seen_yield (state c')) = 1))
   \<and> (init ao an mg im nr bp = Inr c0 \<and> rules_valid c0
        \<and> \<not> list_ex irregular_lambda_stmt tree \<longrightarrow>
        (\<exists>tree' c'. transform_module_impl c0 tree = Inr (tree', c')
           \<and> length (seen_return_statement (state c')) = 1
           \<and> length (seen_raise_statement (state c')) = 1
           \<and> length (seen_yield (state c')) = 1))"
proof -
  have seed: "seen_return_statement (state c0) = [False]
      \<and> seen_raise_statement (state c0) = [False]
      \<and> seen_yield (state c0) = [False]" if "init ao an mg im nr bp = Inr c0"
    using init_stacks [OF that] by simp
  have push: "seen_return_statement (state (visit_FunctionDef c))
         = seen_return_statement (state c) @ [False]
      \<and> seen_raise_statement (state (visit_FunctionDef c))
         = seen_raise_statement (state c) @ [False]
      \<and> seen_yield (state (visit_FunctionDef c)) = seen_yield (state c) @ [False]"
    by (simp add: visit_FunctionDef_def)
  have pop: "\<exists>f' c'. leave_FunctionDef c orig upd = Inr (f', c')
           \<and> seen_return_statement (state c') = butlast (seen_return_statement (state c))
           \<and> seen_raise_statement (state c') = butlast (seen_raise_statement (state c))
           \<and> seen_yield (state c') = butlast (seen_yield (state c))"
    if ok: "stacks_nonempty c"
  proof -
    from leave_FunctionDef_after [OF ok] obtain f' imps where
      "leave_FunctionDef c orig upd = Inr (f', after False False False False imps (pop_frames c))"
      by blast
    then show ?thesis
      by (simp add: pop_frames_def)
  qed
  have func: "visit_funcdef c f = Inl CSTValidationError
        \<or> (\<exists>f' c'. visit_funcdef c f = Inr (f', c')
           \<and> seen_return_statement (state c') = seen_return_statement (state c)
           \<and> seen_raise_statement (state c') = seen_raise_statement (state c)
           \<and> seen_yield (state c') = seen_yield (state c))"
    if ok: "stacks_nonempty c"
    using tracks_funcdef [of f] ok
  proof (cases rule: tracksE)
    case fail
    then show ?thesis by blast
  next
    case (good f' imps)
    then show ?thesis by simp
  qed
  have exit: "visit_funcdef c f = Inl CSTValidationError
        \<or> (\<exists>c4 upd4 x y z. visit_funcdef c f = leave_FunctionDef c4 f upd4
           \<and> seen_return_statement (state c4) = seen_return_statement (state c) @ [x]
           \<and> seen_raise_statement (state c4) = seen_raise_statement (state c) @ [y]
           \<and> seen_yield (state c4) = seen_yield (state c) @ [z])"
    if ok: "stacks_nonempty c"
  proof (cases f)
    case (FunctionDef ds n ps r b)
    from visit_funcdef_children [OF tracks_stmt ok]
    consider (fail) "visit_funcdef c (FunctionDef ds n ps r b) = Inl CSTValidationError"
      | (good) ds' ps' r' b' imps where
        "visit_funcdef c (FunctionDef ds n ps r b) =
            leave_FunctionDef
              (after (own_return (FunctionDef ds n ps r b)) (own_raise (FunctionDef ds n ps r b))
                 (own_yield (FunctionDef ds n ps r b))
                 (lambda_in_funcdef (FunctionDef ds n ps r b)) imps (visit_FunctionDef c))
              (FunctionDef ds n ps r b) (FunctionDef ds' n ps' r' b')"
      by blast
    then show ?thesis
    proof cases
      case fail
      then show ?thesis unfolding FunctionDef by blast
    next
      case good
      let ?c4 = "after (own_return f) (own_raise f) (own_yield f) (lambda_in_funcdef f) imps
                   (visit_FunctionDef c)"
      have "visit_funcdef c f = leave_FunctionDef ?c4 f (FunctionDef ds' n ps' r' b')"
        using good by (simp only: FunctionDef)
      moreover have "seen_return_statement (state ?c4)
          = seen_return_statement (state c) @ [own_return f]"
        and "seen_raise_statement (state ?c4) = seen_raise_statement (state c) @ [own_raise f]"
        and "seen_yield (state ?c4) = seen_yield (state c) @ [own_yield f]"
        by (simp_all add: visit_FunctionDef_def)
      ultimately show ?thesis by blast
    qed
  qed
  have whole: "transform_module_impl c tree = Inl CSTValidationError
        \<or> (\<exists>tree' c'. transform_module_impl c tree = Inr (tree', c')
           \<and> length (seen_return_statement (state c')) = length (seen_return_statement (state c))
           \<and> length (seen_raise_statement (state c')) = length (seen_raise_statement (state c))
           \<and> length (seen_yield (state c')) = length (seen_yield (state c))
           \<and> butlast (seen_return_statement (state c')) = butlast (seen_return_statement (state c))
           \<and> butlast (seen_raise_statement (state c')) = butlast (seen_raise_statement (state c))
           \<and> butlast (seen_yield (state c')) = butlast (seen_yield (state c)))"
    if ok: "stacks_nonempty c" for c
  proof -
    have "tracks (visit_sequence visit_stmt) (list_ex return_in_scope)
              (list_ex raise_in_scope) (list_ex yield_in_scope) (list_ex lambda_in_stmt) tree"
      by (rule tracks_sequence) (rule tracks_stmt)
    from this ok show ?thesis
    proof (cases rule: tracksE)
      case fail
      then show ?thesis by (simp add: transform_module_impl_def)
    next
      case (good tree' imps)
      then show ?thesis by (simp add: transform_module_impl_def)
    qed
  qed
  have run: "transform_module_impl c0 tree = Inl CSTValidationError
        \<or> (\<exists>tree' c'. transform_module_impl c0 tree = Inr (tree', c')
           \<and> length (seen_return_statement (state c')) = 1
           \<and> length (seen_raise_statement (state c')) = 1
           \<and> length (seen_yield (state c')) = 1)"
    if i: "init ao an mg im nr bp = Inr c0"
  proof -
    have ok0: "stacks_nonempty c0"
      using seed [OF i] by (simp add: stacks_nonempty_def)
    from whole [OF ok0] seed [OF i] show ?thesis
      by auto
  qed
  have complete: "\<exists>tree' c'. transform_module_impl c0 tree = Inr (tree', c')
           \<and> length (seen_return_statement (state c')) = 1
           \<and> length (seen_raise_statement (state c')) = 1
           \<and> length (seen_yield (state c')) = 1"
    if i: "init ao an mg im nr bp = Inr c0" and valid: "rules_valid c0"
      and reg: "\<not> list_ex irregular_lambda_stmt tree"
  proof -
    have ok0: "stacks_nonempty c0"
      using seed [OF i] by (simp add: stacks_nonempty_def)
    from transform_module_impl_completes [OF ok0 valid reg]
    have "transform_module_impl c0 tree \<noteq> Inl CSTValidationError"
      by auto
    with run [OF i] show ?thesis by blast
  qed
  from seed push pop func exit whole run complete show ?thesis by blast
qed

theorem stacks_balanced_witness:
  "init (Some [''x:mymod.Foo'']) None True True True True
     = Inr \<lparr>state = \<lparr>annotate_optionals =
                         [\<lparr>name = ''x'', module = ''mymod'', type_name = ''Foo''\<rparr>],
                annotate_named_params = [],
                annotate_magics = True, annotate_imprecise_magics = True,
                none_return = True, bool_param = True,
                seen_return_statement = [False], seen_raise_statement = [False],
                seen_yield = [False], in_lambda = False\<rparr>,
              needed_imports = []\<rparr>
   \<and> (\<exists>tree' c'. transform_module_impl
         \<lparr>state = \<lparr>annotate_optionals =
                         [\<lparr>name = ''x'', module = ''mymod'', type_name = ''Foo''\<rparr>],
                annotate_named_params = [],
                annotate_magics = True, annotate_imprecise_magics = True,
                none_return = True, bool_param = True,
                seen_return_statement = [False], seen_raise_statement = [False],
                seen_yield = [False], in_lambda = False\<rparr>,
           needed_imports = []\<rparr>
         [Raise None None,
          FunctionDefStmt (FunctionDef [] ''f'' [Param ''x'' None (Some (Name ''None''))] None
             [FunctionDefStmt (FunctionDef [] ''g'' [] None [Return (Some (Name ''x''))]),
              SimpleStmt [Lambda [Param ''y'' None (Some (Name ''True''))] (Name ''y'')]])]
         = Inr (tree', c')
       \<and> length (seen_return_statement (state c')) = 1
       \<and> length (seen_raise_statement (state c')) = 1
       \<and> length (seen_yield (state c')) = 1)"
proof -
  let ?c = "\<lparr>state = \<lparr>annotate_optionals =
                         [\<lparr>name = ''x'', module = ''mymod'', type_name = ''Foo''\<rparr>],
                annotate_named_params = [],
                annotate_magics = True, annotate_imprecise_magics = True,
                none_return = True, bool_param = True,
                seen_return_statement = [False], seen_raise_statement = [False],
                seen_yield = [False], in_lambda = False\<rparr>,
              needed_imports = []\<rparr>"
  let ?tree = "[Raise None None,
          FunctionDefStmt (FunctionDef [] ''f'' [Param ''x'' None (Some (Name ''None''))] None
             [FunctionDefStmt (FunctionDef [] ''g'' [] None [Return (Some (Name ''x''))]),
              SimpleStmt [Lambda [Param ''y'' None (Some (Name ''True''))] (Name ''y'')]])]"
  have i: "init (Some [''x:mymod.Foo'']) None True True True True = Inr ?c"
    by (simp add: init_def rules_of_def make_def rsplit1_def)
  have valid: "rules_valid ?c"
    by (simp add: rules_valid_def xid_start_def xid_continue_def)
  have regular: "\<not> list_ex irregular_lambda_stmt ?tree"
    by simp
  from stacks_balanced [of "Some [''x:mymod.Foo'']" None True True True True ?c _ _ _ _ ?tree]
    i valid regular
  show ?thesis by blast
qed

section \<open>Running the engine on its own output\<close>

lemma config_after [simp]: "config (after r a y l i c) = config c"
  by (simp add: config_def after_def)

lemma agree_after:
  "agree c c2 \<Longrightarrow> agree (after r a y l i c) (after r a y l i2 c2)"
  by (simp add: agree_def after_def stacks_nonempty_def config_def)

lemma agree_visit_Lambda: "agree c c2 \<Longrightarrow> agree (visit_Lambda c) (visit_Lambda c2)"
  by (simp add: agree_def visit_Lambda_def stacks_nonempty_def config_def)

lemma agree_visit_FunctionDef:
  "agree c c2 \<Longrightarrow> agree (visit_FunctionDef c) (visit_FunctionDef c2)"
  by (simp add: agree_def visit_FunctionDef_def stacks_nonempty_def config_def)

lemma settlesI:
  assumes "\<And>c c2 x' c'. agree c c2 \<Longrightarrow> f c x = Inr (x', c') \<Longrightarrow>
        ret x' = ret x \<and> rai x' = rai x \<and> yld x' = yld x \<and> lam x' = lam x
        \<and> f c2 x' = Inr (x', after (ret x) (rai x) (yld x) (lam x) [] c2)"
  shows "settles f ret rai yld lam x"
  using assms unfolding settles_def by blast

lemma settlesD:
  assumes "tracks f ret rai yld lam x" and "settles f ret rai yld lam x" and "agree c c2"
    and "\<exists>r. f c x = Inr r"
  obtains x' imps where
    "f c x = Inr (x', after (ret x) (rai x) (yld x) (lam x) imps c)"
    and "ret x' = ret x" and "rai x' = rai x" and "yld x' = yld x" and "lam x' = lam x"
    and "f c2 x' = Inr (x', after (ret x) (rai x) (yld x) (lam x) [] c2)"
proof -
  from assms(3) have ok: "stacks_nonempty c" by (simp add: agree_def)
  from assms(1) ok assms(4) obtain x' imps where
    1: "f c x = Inr (x', after (ret x) (rai x) (yld x) (lam x) imps c)"
    by (rule tracksD)
  from assms(2,3) 1 have
    "ret x' = ret x \<and> rai x' = rai x \<and> yld x' = yld x \<and> lam x' = lam x
        \<and> f c2 x' = Inr (x', after (ret x) (rai x) (yld x) (lam x) [] c2)"
    unfolding settles_def by blast
  with 1 that show thesis by blast
qed

lemma settles_sequence:
  assumes "\<And>x. x \<in> set xs \<Longrightarrow> tracks f ret rai yld lam x"
    and "\<And>x. x \<in> set xs \<Longrightarrow> settles f ret rai yld lam x"
  shows "settles (visit_sequence f) (list_ex ret) (list_ex rai) (list_ex yld) (list_ex lam) xs"
  using assms
proof (induction xs)
  case Nil
  show ?case
    by (rule settlesI) simp
next
  case (Cons x xs)
  have t_x: "tracks f ret rai yld lam x" and s_x: "settles f ret rai yld lam x"
    using Cons.prems by simp_all
  have t_xs: "tracks (visit_sequence f) (list_ex ret) (list_ex rai) (list_ex yld)
                (list_ex lam) xs"
    using Cons.prems(1) by (intro tracks_sequence) simp
  have s_xs: "settles (visit_sequence f) (list_ex ret) (list_ex rai) (list_ex yld)
                (list_ex lam) xs"
    using Cons by simp
  show ?case
  proof (rule settlesI)
    fix c c2 ys c'
    assume ag: "agree c c2" and run: "visit_sequence f c (x # xs) = Inr (ys, c')"
    have r1: "\<exists>res. f c x = Inr res"
      using run
      by (auto simp del: after_after list_ex_never option_ex_never not_None_eq
          leave_Param.simps leave_FunctionDef.simps split: sum.splits)
    from t_x s_x ag r1 obtain x' i1 where
      1: "f c x = Inr (x', after (ret x) (rai x) (yld x) (lam x) i1 c)"
      and fx: "ret x' = ret x" "rai x' = rai x" "yld x' = yld x" "lam x' = lam x"
      and again1: "f c2 x' = Inr (x', after (ret x) (rai x) (yld x) (lam x) [] c2)"
      by (rule settlesD)
    let ?c1 = "after (ret x) (rai x) (yld x) (lam x) i1 c"
    let ?c21 = "after (ret x) (rai x) (yld x) (lam x) [] c2"
    have ag1: "agree ?c1 ?c21" using ag by (rule agree_after)
    have r2: "\<exists>res. visit_sequence f ?c1 xs = Inr res"
      using run
      by (auto simp: 1 simp del: after_after list_ex_never option_ex_never not_None_eq
          leave_Param.simps leave_FunctionDef.simps split: sum.splits)
    from t_xs s_xs ag1 r2 obtain xs' i2 where
      2: "visit_sequence f ?c1 xs = Inr (xs', after (list_ex ret xs) (list_ex rai xs)
             (list_ex yld xs) (list_ex lam xs) i2 ?c1)"
      and fxs: "list_ex ret xs' = list_ex ret xs" "list_ex rai xs' = list_ex rai xs"
        "list_ex yld xs' = list_ex yld xs" "list_ex lam xs' = list_ex lam xs"
      and again2: "visit_sequence f ?c21 xs' = Inr (xs', after (list_ex ret xs) (list_ex rai xs)
             (list_ex yld xs) (list_ex lam xs) [] ?c21)"
      by (rule settlesD)
    have ys: "ys = x' # xs'"
      using run by (simp add: 1 2 del: after_after)
    have again: "visit_sequence f c2 (x' # xs') =
        Inr (x' # xs', after (list_ex ret (x # xs)) (list_ex rai (x # xs))
          (list_ex yld (x # xs)) (list_ex lam (x # xs)) [] c2)"
      by (simp add: again1 again2 del: after_after) simp
    show "list_ex ret ys = list_ex ret (x # xs) \<and> list_ex rai ys = list_ex rai (x # xs)
        \<and> list_ex yld ys = list_ex yld (x # xs) \<and> list_ex lam ys = list_ex lam (x # xs)
        \<and> visit_sequence f c2 ys =
            Inr (ys, after (list_ex ret (x # xs)) (list_ex rai (x # xs))
              (list_ex yld (x # xs)) (list_ex lam (x # xs)) [] c2)"
      unfolding ys using fx fxs again by simp
  qed
qed

lemma settles_optional:
  assumes "\<And>x. v = Some x \<Longrightarrow> tracks f ret rai yld lam x"
    and "\<And>x. v = Some x \<Longrightarrow> settles f ret rai yld lam x"
  shows "settles (visit_optional f) (option_ex ret) (option_ex rai) (option_ex yld)
           (option_ex lam) v"
proof (cases v)
  case None
  show ?thesis
    unfolding None by (rule settlesI) simp
next
  case (Some x)
  have t_x: "tracks f ret rai yld lam x" and s_x: "settles f ret rai yld lam x"
    using assms Some by simp_all
  show ?thesis
    unfolding Some
  proof (rule settlesI)
    fix c c2 y c'
    assume ag: "agree c c2" and run: "visit_optional f c (Some x) = Inr (y, c')"
    have r1: "\<exists>res. f c x = Inr res"
      using run
      by (auto simp del: after_after list_ex_never option_ex_never not_None_eq
          leave_Param.simps leave_FunctionDef.simps split: sum.splits)
    from t_x s_x ag r1 obtain x' i1 where
      1: "f c x = Inr (x', after (ret x) (rai x) (yld x) (lam x) i1 c)"
      and fx: "ret x' = ret x" "rai x' = rai x" "yld x' = yld x" "lam x' = lam x"
      and again1: "f c2 x' = Inr (x', after (ret x) (rai x) (yld x) (lam x) [] c2)"
      by (rule settlesD)
    have y: "y = Some x'"
      using run by (simp add: 1)
    show "option_ex ret y = option_ex ret (Some x) \<and> option_ex rai y = option_ex rai (Some x)
        \<and> option_ex yld y = option_ex yld (Some x) \<and> option_ex lam y = option_ex lam (Some x)
        \<and> visit_optional f c2 y =
            Inr (y, after (option_ex ret (Some x)) (option_ex rai (Some x))
              (option_ex yld (Some x)) (option_ex lam (Some x)) [] c2)"
      unfolding y using fx again1 by simp
  qed
qed

lemma visit_simple_annotation:
  "simple_annotation e \<Longrightarrow> visit_expr c e = Inr (e, c)"
  by (auto simp: simple_annotation_def)

lemma simple_annotation_facts:
  "simple_annotation e \<Longrightarrow> \<not> contains_yield e \<and> \<not> contains_lambda e"
  by (auto simp: simple_annotation_def)

lemma visit_expr_Name_iff:
  "visit_expr c e = Inr (e', c') \<Longrightarrow> (e' = Name v) = (e = Name v)"
  by (cases e) (auto simp: leave_Lambda_def new_Lambda_def split: sum.splits if_splits)

lemma visit_optional_None_iff:
  "visit_optional f c d = Inr (d', c') \<Longrightarrow> (d' = None) = (d = None)"
  by (cases d) (auto split: sum.splits)

lemma visit_optional_is_name_in:
  assumes "visit_optional visit_expr c d = Inr (d', c')"
  shows "is_name_in d' vs = is_name_in d vs"
proof (cases d)
  case None
  with assms show ?thesis by simp
next
  case (Some e)
  with assms obtain e' c1 where e': "visit_expr c e = Inr (e', c1)" and d': "d' = Some e'"
    by (auto split: sum.splits)
  show ?thesis
  proof (cases "\<exists>v. e = Name v")
    case True
    then obtain v where "e = Name v" by blast
    with e' have "e' = Name v" by simp
    with \<open>e = Name v\<close> Some d' show ?thesis by simp
  next
    case False
    then have "\<not> (\<exists>v. e' = Name v)"
      using visit_expr_Name_iff [OF e'] by blast
    with False Some d' show ?thesis
      by (cases e; cases e') simp_all
  qed
qed

lemma leave_Param_eq:
  "leave_Param c (Param n a d) upd =
     (if in_lambda (state c) \<or> a \<noteq> None then Inr (upd, c)
      else if bool_param (state c) \<and> is_name_in d [''True'', ''False'']
      then Inr (with_annotation upd (Name ''bool''), c)
      else if is_name_in d [''None'']
      then (case find (\<lambda>r. name r = n) (annotate_optionals (state c)) of
              None \<Rightarrow> Inr (upd, c)
            | Some r \<Rightarrow> annotate_param c r upd True)
      else if d = None
      then (case find (\<lambda>r. name r = n) (annotate_named_params (state c)) of
              None \<Rightarrow> Inr (upd, c)
            | Some r \<Rightarrow> annotate_param c r upd False)
      else Inr (upd, c))"
  by (simp add: annotate_first_find)

lemma leave_Param_cases:
  assumes "leave_Param c (Param n a d) (Param n a' d') = Inr (p', c')"
  shows "p' = Param n a' d'
       \<or> (\<not> in_lambda (state c) \<and> a = None
           \<and> (\<exists>e. simple_annotation e \<and> p' = Param n (Some e) d'))"
  using assms unfolding leave_Param_eq
  by (auto simp: annotate_param_eq simple_annotation_def split: if_splits option.splits)

lemma leave_Param_settled:
  assumes run: "leave_Param c (Param n a d) (Param n a' d') = Inr (Param n pa d', c')"
    and a': "(a' = None) = (a = None)"
    and names: "\<And>vs. is_name_in d' vs = is_name_in d vs"
    and d': "(d' = None) = (d = None)"
    and cfg: "config c2 = config c"
    and lam: "in_lambda (state c2) = in_lambda (state c)"
  shows "leave_Param c2 (Param n pa d') (Param n pa d') = Inr (Param n pa d', c2)"
proof (cases "pa = None")
  case False
  then show ?thesis by (simp add: leave_Param_eq)
next
  case True
  from cfg have opts: "annotate_optionals (state c2) = annotate_optionals (state c)"
    and named: "annotate_named_params (state c2) = annotate_named_params (state c)"
    and bp: "bool_param (state c2) = bool_param (state c)"
    by (simp_all add: config_def)
  from run True have a'N: "a' = None"
    unfolding leave_Param_eq
    by (auto simp: annotate_param_eq split: if_splits option.splits)
  with a' have aN: "a = None" by simp
  show ?thesis
  proof (cases "in_lambda (state c)")
    case lam1: True
    with lam show ?thesis by (simp add: leave_Param_eq)
  next
    case nolam: False
    from run True aN nolam
    have nobool: "\<not> (bool_param (state c) \<and> is_name_in d [''True'', ''False''])"
      unfolding leave_Param_eq by (auto split: if_splits)
    from run True aN nolam nobool
    have noopt: "is_name_in d [''None''] \<Longrightarrow>
        find (\<lambda>r. name r = n) (annotate_optionals (state c)) = None"
      unfolding leave_Param_eq
      by (auto simp: annotate_param_eq split: if_splits option.splits)
    from run True aN nolam nobool
    have nonamed: "\<not> is_name_in d [''None''] \<Longrightarrow> d = None \<Longrightarrow>
        find (\<lambda>r. name r = n) (annotate_named_params (state c)) = None"
      unfolding leave_Param_eq
      by (auto simp: annotate_param_eq split: if_splits option.splits)
    show ?thesis
      unfolding leave_Param_eq True opts named bp names d'
      using nolam lam nobool noopt nonamed by auto
  qed
qed

lemma settles_expr:
  "settles visit_expr (\<lambda>_. False) (\<lambda>_. False) contains_yield contains_lambda e"
  and settles_param:
  "settles visit_param (\<lambda>_. False) (\<lambda>_. False) param_contains_yield param_contains_lambda p"
proof (induction e and p)
  case (Name v)
  show ?case
    by (rule settlesI) auto
next
  case (Lambda params body)
  have t_ps: "tracks (visit_sequence visit_param) (list_ex (\<lambda>_. False)) (list_ex (\<lambda>_. False))
              (list_ex param_contains_yield) (list_ex param_contains_lambda) params"
    by (rule tracks_sequence) (rule tracks_param)
  have s_ps: "settles (visit_sequence visit_param) (list_ex (\<lambda>_. False)) (list_ex (\<lambda>_. False))
              (list_ex param_contains_yield) (list_ex param_contains_lambda) params"
    by (rule settles_sequence) (simp_all add: tracks_param Lambda.IH(1))
  show ?case
  proof (rule settlesI)
    fix c c2 x' c'
    assume ag: "agree c c2" and run: "visit_expr c (Lambda params body) = Inr (x', c')"
    have ag0: "agree (visit_Lambda c) (visit_Lambda c2)"
      using ag by (rule agree_visit_Lambda)
    have r1: "\<exists>res. visit_sequence visit_param (visit_Lambda c) params = Inr res"
      using run
      by (auto simp del: after_after list_ex_never option_ex_never not_None_eq
          leave_Param.simps leave_FunctionDef.simps split: sum.splits)
    from t_ps s_ps ag0 r1 obtain params' i1 where
      1: "visit_sequence visit_param (visit_Lambda c) params =
            Inr (params', after (list_ex (\<lambda>_. False) params) (list_ex (\<lambda>_. False) params)
                   (list_ex param_contains_yield params)
                   (list_ex param_contains_lambda params) i1 (visit_Lambda c))"
      and f1: "list_ex param_contains_yield params' = list_ex param_contains_yield params"
      and a1: "visit_sequence visit_param (visit_Lambda c2) params' =
            Inr (params', after (list_ex (\<lambda>_. False) params) (list_ex (\<lambda>_. False) params)
                   (list_ex param_contains_yield params)
                   (list_ex param_contains_lambda params) [] (visit_Lambda c2))"
      by (rule settlesD)
    let ?c1 = "after (list_ex (\<lambda>_. False) params) (list_ex (\<lambda>_. False) params)
                   (list_ex param_contains_yield params)
                   (list_ex param_contains_lambda params) i1 (visit_Lambda c)"
    let ?d1 = "after (list_ex (\<lambda>_. False) params) (list_ex (\<lambda>_. False) params)
                   (list_ex param_contains_yield params)
                   (list_ex param_contains_lambda params) [] (visit_Lambda c2)"
    have ag1: "agree ?c1 ?d1" using ag0 by (rule agree_after)
    have r2: "\<exists>res. visit_expr ?c1 body = Inr res"
      using run
      by (auto simp: 1 simp del: after_after list_ex_never option_ex_never not_None_eq
          leave_Param.simps leave_FunctionDef.simps split: sum.splits)
    from tracks_expr Lambda.IH(2) ag1 r2 obtain body' i2 where
      2: "visit_expr ?c1 body =
            Inr (body', after False False (contains_yield body) (contains_lambda body) i2 ?c1)"
      and f2: "contains_yield body' = contains_yield body"
      and a2: "visit_expr ?d1 body' =
            Inr (body', after False False (contains_yield body) (contains_lambda body) [] ?d1)"
      by (rule settlesD)
    have valid: "new_Lambda params' body' = Inr (Lambda params' body')"
      using run
      by (auto simp: 1 2 new_Lambda_def simp del: after_after list_ex_never
          split: sum.splits if_splits)
    have x': "x' = Lambda params' body'"
      using run by (simp add: 1 2 valid leave_Lambda_def del: after_after list_ex_never)
    have again: "visit_expr c2 (Lambda params' body') =
        Inr (Lambda params' body', after False False (contains_yield (Lambda params body))
          (contains_lambda (Lambda params body)) [] c2)"
      by (simp add: a1 a2 valid leave_Lambda_def del: after_after list_ex_never)
        (simp add: after_def visit_Lambda_def)
    show "False = False \<and> False = False \<and> contains_yield x' = contains_yield (Lambda params body)
        \<and> contains_lambda x' = contains_lambda (Lambda params body)
        \<and> visit_expr c2 x' =
            Inr (x', after False False (contains_yield (Lambda params body))
              (contains_lambda (Lambda params body)) [] c2)"
      unfolding x' using f1 f2 again by simp
  qed
next
  case (Yield v)
  have t_v: "tracks (visit_optional visit_expr) (option_ex (\<lambda>_. False)) (option_ex (\<lambda>_. False))
              (option_ex contains_yield) (option_ex contains_lambda) v"
    by (rule tracks_optional) (rule tracks_expr)
  have s_v: "settles (visit_optional visit_expr) (option_ex (\<lambda>_. False))
              (option_ex (\<lambda>_. False)) (option_ex contains_yield) (option_ex contains_lambda) v"
    by (rule settles_optional) (simp_all add: tracks_expr Yield.IH)
  show ?case
  proof (rule settlesI)
    fix c c2 x' c'
    assume ag: "agree c c2" and run: "visit_expr c (Yield v) = Inr (x', c')"
    from ag have ok: "stacks_nonempty c" and ok2: "stacks_nonempty c2"
      by (simp_all add: agree_def)
    let ?c0 = "after False False True False [] c"
    let ?d0 = "after False False True False [] c2"
    have ag0: "agree ?c0 ?d0" using ag by (rule agree_after)
    have r1: "\<exists>res. visit_optional visit_expr ?c0 v = Inr res"
      using run
      by (auto simp: visit_Yield_after [OF ok] simp del: after_after list_ex_never option_ex_never not_None_eq
          leave_Param.simps leave_FunctionDef.simps split: sum.splits)
    from t_v s_v ag0 r1 obtain v' i1 where
      1: "visit_optional visit_expr ?c0 v =
            Inr (v', after (option_ex (\<lambda>_. False) v) (option_ex (\<lambda>_. False) v)
                   (option_ex contains_yield v) (option_ex contains_lambda v) i1 ?c0)"
      and f1: "option_ex contains_lambda v' = option_ex contains_lambda v"
      and a1: "visit_optional visit_expr ?d0 v' =
            Inr (v', after (option_ex (\<lambda>_. False) v) (option_ex (\<lambda>_. False) v)
                   (option_ex contains_yield v) (option_ex contains_lambda v) [] ?d0)"
      by (rule settlesD)
    have x': "x' = Yield v'"
      using run by (simp add: visit_Yield_after [OF ok] 1 del: after_after option_ex_never)
    have again: "visit_expr c2 (Yield v') =
        Inr (Yield v', after False False (contains_yield (Yield v))
          (contains_lambda (Yield v)) [] c2)"
      by (simp add: visit_Yield_after [OF ok2] a1 del: after_after option_ex_never) simp
    show "False = False \<and> False = False \<and> contains_yield x' = contains_yield (Yield v)
        \<and> contains_lambda x' = contains_lambda (Yield v)
        \<and> visit_expr c2 x' =
            Inr (x', after False False (contains_yield (Yield v))
              (contains_lambda (Yield v)) [] c2)"
      unfolding x' using f1 again by simp
  qed
next
  case (Subscript v slice)
  have t_sl: "tracks (visit_sequence visit_expr) (list_ex (\<lambda>_. False)) (list_ex (\<lambda>_. False))
              (list_ex contains_yield) (list_ex contains_lambda) slice"
    by (rule tracks_sequence) (rule tracks_expr)
  have s_sl: "settles (visit_sequence visit_expr) (list_ex (\<lambda>_. False)) (list_ex (\<lambda>_. False))
              (list_ex contains_yield) (list_ex contains_lambda) slice"
    by (rule settles_sequence) (simp_all add: tracks_expr Subscript.IH(2))
  show ?case
  proof (rule settlesI)
    fix c c2 x' c'
    assume ag: "agree c c2" and run: "visit_expr c (Subscript v slice) = Inr (x', c')"
    have r1: "\<exists>res. visit_expr c v = Inr res"
      using run
      by (auto simp del: after_after list_ex_never option_ex_never not_None_eq
          leave_Param.simps leave_FunctionDef.simps split: sum.splits)
    from tracks_expr Subscript.IH(1) ag r1 obtain v' i1 where
      1: "visit_expr c v =
            Inr (v', after False False (contains_yield v) (contains_lambda v) i1 c)"
      and f1: "contains_yield v' = contains_yield v" "contains_lambda v' = contains_lambda v"
      and a1: "visit_expr c2 v' =
            Inr (v', after False False (contains_yield v) (contains_lambda v) [] c2)"
      by (rule settlesD)
    let ?c1 = "after False False (contains_yield v) (contains_lambda v) i1 c"
    let ?d1 = "after False False (contains_yield v) (contains_lambda v) [] c2"
    have ag1: "agree ?c1 ?d1" using ag by (rule agree_after)
    have r2: "\<exists>res. visit_sequence visit_expr ?c1 slice = Inr res"
      using run
      by (auto simp: 1 simp del: after_after list_ex_never option_ex_never not_None_eq
          leave_Param.simps leave_FunctionDef.simps split: sum.splits)
    from t_sl s_sl ag1 r2 obtain slice' i2 where
      2: "visit_sequence visit_expr ?c1 slice =
            Inr (slice', after (list_ex (\<lambda>_. False) slice) (list_ex (\<lambda>_. False) slice)
                   (list_ex contains_yield slice) (list_ex contains_lambda slice) i2 ?c1)"
      and f2: "list_ex contains_yield slice' = list_ex contains_yield slice"
        "list_ex contains_lambda slice' = list_ex contains_lambda slice"
      and a2: "visit_sequence visit_expr ?d1 slice' =
            Inr (slice', after (list_ex (\<lambda>_. False) slice) (list_ex (\<lambda>_. False) slice)
                   (list_ex contains_yield slice) (list_ex contains_lambda slice) [] ?d1)"
      by (rule settlesD)
    have x': "x' = Subscript v' slice'"
      using run by (simp add: 1 2 del: after_after list_ex_never)
    have again: "visit_expr c2 (Subscript v' slice') =
        Inr (Subscript v' slice', after False False (contains_yield (Subscript v slice))
          (contains_lambda (Subscript v slice)) [] c2)"
      by (simp add: a1 a2 del: after_after list_ex_never) simp
    show "False = False \<and> False = False
        \<and> contains_yield x' = contains_yield (Subscript v slice)
        \<and> contains_lambda x' = contains_lambda (Subscript v slice)
        \<and> visit_expr c2 x' =
            Inr (x', after False False (contains_yield (Subscript v slice))
              (contains_lambda (Subscript v slice)) [] c2)"
      unfolding x' using f1 f2 again by simp
  qed
next
  case (OtherExpr l es)
  have t_es: "tracks (visit_sequence visit_expr) (list_ex (\<lambda>_. False)) (list_ex (\<lambda>_. False))
              (list_ex contains_yield) (list_ex contains_lambda) es"
    by (rule tracks_sequence) (rule tracks_expr)
  have s_es: "settles (visit_sequence visit_expr) (list_ex (\<lambda>_. False)) (list_ex (\<lambda>_. False))
              (list_ex contains_yield) (list_ex contains_lambda) es"
    by (rule settles_sequence) (simp_all add: tracks_expr OtherExpr.IH)
  show ?case
  proof (rule settlesI)
    fix c c2 x' c'
    assume ag: "agree c c2" and run: "visit_expr c (OtherExpr l es) = Inr (x', c')"
    have r1: "\<exists>res. visit_sequence visit_expr c es = Inr res"
      using run
      by (auto simp del: after_after list_ex_never option_ex_never not_None_eq
          leave_Param.simps leave_FunctionDef.simps split: sum.splits)
    from t_es s_es ag r1 obtain es' i1 where
      1: "visit_sequence visit_expr c es =
            Inr (es', after (list_ex (\<lambda>_. False) es) (list_ex (\<lambda>_. False) es)
                   (list_ex contains_yield es) (list_ex contains_lambda es) i1 c)"
      and f1: "list_ex contains_yield es' = list_ex contains_yield es"
        "list_ex contains_lambda es' = list_ex contains_lambda es"
      and a1: "visit_sequence visit_expr c2 es' =
            Inr (es', after (list_ex (\<lambda>_. False) es) (list_ex (\<lambda>_. False) es)
                   (list_ex contains_yield es) (list_ex contains_lambda es) [] c2)"
      by (rule settlesD)
    have x': "x' = OtherExpr l es'"
      using run by (simp add: 1 del: after_after list_ex_never)
    have again: "visit_expr c2 (OtherExpr l es') =
        Inr (OtherExpr l es', after False False (contains_yield (OtherExpr l es))
          (contains_lambda (OtherExpr l es)) [] c2)"
      by (simp add: a1 del: after_after list_ex_never) simp
    show "False = False \<and> False = False
        \<and> contains_yield x' = contains_yield (OtherExpr l es)
        \<and> contains_lambda x' = contains_lambda (OtherExpr l es)
        \<and> visit_expr c2 x' =
            Inr (x', after False False (contains_yield (OtherExpr l es))
              (contains_lambda (OtherExpr l es)) [] c2)"
      unfolding x' using f1 again by simp
  qed
next
  case (Param n a d)
  have t_a: "tracks (visit_optional visit_expr) (option_ex (\<lambda>_. False)) (option_ex (\<lambda>_. False))
              (option_ex contains_yield) (option_ex contains_lambda) a"
    and t_d: "tracks (visit_optional visit_expr) (option_ex (\<lambda>_. False))
              (option_ex (\<lambda>_. False)) (option_ex contains_yield) (option_ex contains_lambda) d"
    by (rule tracks_optional, rule tracks_expr)+
  have s_a: "settles (visit_optional visit_expr) (option_ex (\<lambda>_. False))
              (option_ex (\<lambda>_. False)) (option_ex contains_yield) (option_ex contains_lambda) a"
    by (rule settles_optional) (simp_all add: tracks_expr Param.IH(1))
  have s_d: "settles (visit_optional visit_expr) (option_ex (\<lambda>_. False))
              (option_ex (\<lambda>_. False)) (option_ex contains_yield) (option_ex contains_lambda) d"
    by (rule settles_optional) (simp_all add: tracks_expr Param.IH(2))
  show ?case
  proof (rule settlesI)
    fix c c2 x' c'
    assume ag: "agree c c2" and run: "visit_param c (Param n a d) = Inr (x', c')"
    have r1: "\<exists>res. visit_optional visit_expr c a = Inr res"
      using run
      by (auto simp del: after_after list_ex_never option_ex_never not_None_eq
          leave_Param.simps leave_FunctionDef.simps split: sum.splits)
    from t_a s_a ag r1 obtain a' i1 where
      1: "visit_optional visit_expr c a =
            Inr (a', after (option_ex (\<lambda>_. False) a) (option_ex (\<lambda>_. False) a)
                   (option_ex contains_yield a) (option_ex contains_lambda a) i1 c)"
      and f1: "option_ex contains_yield a' = option_ex contains_yield a"
        "option_ex contains_lambda a' = option_ex contains_lambda a"
      and a1: "visit_optional visit_expr c2 a' =
            Inr (a', after (option_ex (\<lambda>_. False) a) (option_ex (\<lambda>_. False) a)
                   (option_ex contains_yield a) (option_ex contains_lambda a) [] c2)"
      by (rule settlesD)
    let ?c1 = "after (option_ex (\<lambda>_. False) a) (option_ex (\<lambda>_. False) a)
                   (option_ex contains_yield a) (option_ex contains_lambda a) i1 c"
    let ?d1 = "after (option_ex (\<lambda>_. False) a) (option_ex (\<lambda>_. False) a)
                   (option_ex contains_yield a) (option_ex contains_lambda a) [] c2"
    have ag1: "agree ?c1 ?d1" using ag by (rule agree_after)
    have r2: "\<exists>res. visit_optional visit_expr ?c1 d = Inr res"
      using run
      by (auto simp: 1 simp del: after_after list_ex_never option_ex_never not_None_eq
          leave_Param.simps leave_FunctionDef.simps split: sum.splits)
    from t_d s_d ag1 r2 obtain d' i2 where
      2: "visit_optional visit_expr ?c1 d =
            Inr (d', after (option_ex (\<lambda>_. False) d) (option_ex (\<lambda>_. False) d)
                   (option_ex contains_yield d) (option_ex contains_lambda d) i2 ?c1)"
      and f2: "option_ex contains_yield d' = option_ex contains_yield d"
        "option_ex contains_lambda d' = option_ex contains_lambda d"
      and a2: "visit_optional visit_expr ?d1 d' =
            Inr (d', after (option_ex (\<lambda>_. False) d) (option_ex (\<lambda>_. False) d)
                   (option_ex contains_yield d) (option_ex contains_lambda d) [] ?d1)"
      by (rule settlesD)
    let ?c2 = "after (option_ex (\<lambda>_. False) d) (option_ex (\<lambda>_. False) d)
                   (option_ex contains_yield d) (option_ex contains_lambda d) i2 ?c1"
    let ?d2 = "after (option_ex (\<lambda>_. False) d) (option_ex (\<lambda>_. False) d)
                   (option_ex contains_yield d) (option_ex contains_lambda d) [] ?d1"
    have ag2: "agree ?c2 ?d2" using ag1 by (rule agree_after)
    have leave: "leave_Param ?c2 (Param n a d) (Param n a' d') = Inr (x', c')"
      using run by (simp add: 1 2 del: after_after option_ex_never leave_Param.simps)
    have a'N: "(a' = None) = (a = None)"
      using 1 by (rule visit_optional_None_iff)
    have d'N: "(d' = None) = (d = None)"
      using 2 by (rule visit_optional_None_iff)
    have names: "is_name_in d' vs = is_name_in d vs" for vs
      using 2 by (rule visit_optional_is_name_in)
    from leave_Param_cases [OF leave]
    obtain pa where x': "x' = Param n pa d'"
      and pa: "pa = a' \<or> (\<not> in_lambda (state ?c2) \<and> a = None
                 \<and> (\<exists>e. simple_annotation e \<and> pa = Some e))"
      by blast
    have fy: "option_ex contains_yield pa = option_ex contains_yield a"
      and fl: "option_ex contains_lambda pa = option_ex contains_lambda a"
      using pa f1 by (auto dest: simple_annotation_facts)
    have again_pa: "visit_optional visit_expr c2 pa = Inr (pa, ?d1)"
    proof -
      from pa consider "pa = a'" | e where "a = None" "simple_annotation e" "pa = Some e"
        by blast
      then show ?thesis
      proof cases
        case 1
        then show ?thesis using a1 by simp
      next
        case 2
        then show ?thesis by (simp add: visit_simple_annotation)
      qed
    qed
    have settled: "leave_Param ?d2 (Param n pa d') (Param n pa d') = Inr (Param n pa d', ?d2)"
      using leave [unfolded x'] a'N names d'N
    proof (rule leave_Param_settled)
      show "config ?d2 = config ?c2"
        using ag2 by (simp add: agree_def)
      show "in_lambda (state ?d2) = in_lambda (state ?c2)"
        using ag2 by (simp only: agree_def)
    qed
    have again: "visit_param c2 (Param n pa d') =
        Inr (Param n pa d', after False False (param_contains_yield (Param n a d))
          (param_contains_lambda (Param n a d)) [] c2)"
      by (simp add: again_pa a2 settled del: after_after option_ex_never leave_Param.simps)
        simp
    show "False = False \<and> False = False
        \<and> param_contains_yield x' = param_contains_yield (Param n a d)
        \<and> param_contains_lambda x' = param_contains_lambda (Param n a d)
        \<and> visit_param c2 x' =
            Inr (x', after False False (param_contains_yield (Param n a d))
              (param_contains_lambda (Param n a d)) [] c2)"
      unfolding x' using fy fl f2 again by simp
  qed
qed

lemma leave_FunctionDef_cases:
  assumes "stacks_nonempty c"
    and "leave_FunctionDef c (FunctionDef ds n ps r b) (FunctionDef ds' n ps' r' b')
           = Inr (f', c')"
  shows "f' = FunctionDef ds' n ps' r' b'
       \<or> (r = None \<and> (\<exists>t. f' = FunctionDef ds' n ps' (Some (Name t)) b'))"
  using assms(2) unfolding leave_FunctionDef_nonempty [OF assms(1)]
  by (auto split: if_splits option.splits)

lemma rule_a_agree:
  assumes "config c2 = config c"
    and "last (seen_return_statement (state c2)) = last (seen_return_statement (state c))"
    and "last (seen_raise_statement (state c2)) = last (seen_raise_statement (state c))"
    and "last (seen_yield (state c2)) = last (seen_yield (state c))"
  shows "rule_a c2 = rule_a c"
  using assms by (simp add: rule_a_def config_def)

lemma leave_FunctionDef_settled:
  assumes ok: "stacks_nonempty c" and ok2: "stacks_nonempty c2"
    and cfg: "config c2 = config c"
    and tops: "last (seen_return_statement (state c2)) = last (seen_return_statement (state c))"
      "last (seen_raise_statement (state c2)) = last (seen_raise_statement (state c))"
      "last (seen_yield (state c2)) = last (seen_yield (state c))"
    and run: "leave_FunctionDef c (FunctionDef ds n ps r b) (FunctionDef ds' n ps' r' b')
                = Inr (FunctionDef ds' n ps' pr b', c')"
    and r': "(r' = None) = (r = None)"
  shows "leave_FunctionDef c2 (FunctionDef ds' n ps' pr b') (FunctionDef ds' n ps' pr b')
           = Inr (FunctionDef ds' n ps' pr b', pop_frames c2)"
proof (cases "pr = None")
  case False
  then obtain a where "pr = Some a" by blast
  then show ?thesis
    by (simp add: leave_FunctionDef_nonempty [OF ok2] del: leave_FunctionDef.simps)
next
  case True
  note eq = run [unfolded leave_FunctionDef_nonempty [OF ok] True]
  have rN: "r = None"
  proof (rule ccontr)
    assume "r \<noteq> None"
    with eq have "r' = None" by simp
    with r' \<open>r \<noteq> None\<close> show False by simp
  qed
  have na: "\<not> rule_a c"
    using eq rN by (auto split: if_splits)
  have ns: "(if annotate_magics (state c) then map_of SIMPLE_MAGICS n else None) = None"
    using eq rN na by (auto split: if_splits option.splits)
  have ni: "(if annotate_imprecise_magics (state c) then map_of IMPRECISE_MAGICS n else None)
              = None"
    using eq rN na ns by (auto split: if_splits option.splits)
  have mg: "annotate_magics (state c2) = annotate_magics (state c)"
    and im: "annotate_imprecise_magics (state c2) = annotate_imprecise_magics (state c)"
    using cfg by (simp_all add: config_def)
  have na2: "\<not> rule_a c2"
    using na rule_a_agree [OF cfg tops] by simp
  show ?thesis
    unfolding leave_FunctionDef_nonempty [OF ok2] True mg im
    using na2 ns ni by simp
qed

lemma last_after_visit_FunctionDef:
  "last (seen_return_statement (state (after r a y l i (visit_FunctionDef c)))) = r"
  "last (seen_raise_statement (state (after r a y l i (visit_FunctionDef c)))) = a"
  "last (seen_yield (state (after r a y l i (visit_FunctionDef c)))) = y"
  by (simp_all add: visit_FunctionDef_def)

lemma settles_stmt:
  "settles visit_stmt return_in_scope raise_in_scope yield_in_scope lambda_in_stmt s"
  and settles_funcdef:
  "settles visit_funcdef (\<lambda>_. False) (\<lambda>_. False) (\<lambda>_. False) lambda_in_funcdef f"
proof (induction s and f)
  case (FunctionDefStmt f)
  show ?case
  proof (rule settlesI)
    fix c c2 x' c'
    assume ag: "agree c c2" and run: "visit_stmt c (FunctionDefStmt f) = Inr (x', c')"
    have r1: "\<exists>res. visit_funcdef c f = Inr res"
      using run
      by (auto simp del: after_after list_ex_never option_ex_never not_None_eq
          leave_Param.simps leave_FunctionDef.simps split: sum.splits)
    from tracks_funcdef FunctionDefStmt.IH ag r1 obtain f' i1 where
      1: "visit_funcdef c f = Inr (f', after False False False (lambda_in_funcdef f) i1 c)"
      and f1: "lambda_in_funcdef f' = lambda_in_funcdef f"
      and a1: "visit_funcdef c2 f' =
                 Inr (f', after False False False (lambda_in_funcdef f) [] c2)"
      by (rule settlesD)
    have x': "x' = FunctionDefStmt f'"
      using run by (simp add: 1)
    show "return_in_scope x' = return_in_scope (FunctionDefStmt f)
        \<and> raise_in_scope x' = raise_in_scope (FunctionDefStmt f)
        \<and> yield_in_scope x' = yield_in_scope (FunctionDefStmt f)
        \<and> lambda_in_stmt x' = lambda_in_stmt (FunctionDefStmt f)
        \<and> visit_stmt c2 x' =
            Inr (x', after (return_in_scope (FunctionDefStmt f))
              (raise_in_scope (FunctionDefStmt f)) (yield_in_scope (FunctionDefStmt f))
              (lambda_in_stmt (FunctionDefStmt f)) [] c2)"
      unfolding x' using f1 a1 by simp
  qed
next
  case (Return v)
  have t_v: "tracks (visit_optional visit_expr) (option_ex (\<lambda>_. False)) (option_ex (\<lambda>_. False))
              (option_ex contains_yield) (option_ex contains_lambda) v"
    by (rule tracks_optional) (rule tracks_expr)
  have s_v: "settles (visit_optional visit_expr) (option_ex (\<lambda>_. False))
              (option_ex (\<lambda>_. False)) (option_ex contains_yield) (option_ex contains_lambda) v"
    by (rule settles_optional) (simp_all add: tracks_expr settles_expr)
  show ?case
  proof (rule settlesI)
    fix c c2 x' c'
    assume ag: "agree c c2" and run: "visit_stmt c (Return v) = Inr (x', c')"
    from ag have ok: "stacks_nonempty c" and ok2: "stacks_nonempty c2"
      by (simp_all add: agree_def)
    let ?c0 = "after (v \<noteq> None) False False False [] c"
    let ?d0 = "after (v \<noteq> None) False False False [] c2"
    have ag0: "agree ?c0 ?d0" using ag by (rule agree_after)
    have r1: "\<exists>res. visit_optional visit_expr ?c0 v = Inr res"
      using run
      by (auto simp: visit_Return_after [OF ok] simp del: after_after list_ex_never option_ex_never not_None_eq
          leave_Param.simps leave_FunctionDef.simps split: sum.splits)
    from t_v s_v ag0 r1 obtain v' i1 where
      1: "visit_optional visit_expr ?c0 v =
            Inr (v', after (option_ex (\<lambda>_. False) v) (option_ex (\<lambda>_. False) v)
                   (option_ex contains_yield v) (option_ex contains_lambda v) i1 ?c0)"
      and f1: "option_ex contains_yield v' = option_ex contains_yield v"
        "option_ex contains_lambda v' = option_ex contains_lambda v"
      and a1: "visit_optional visit_expr ?d0 v' =
            Inr (v', after (option_ex (\<lambda>_. False) v) (option_ex (\<lambda>_. False) v)
                   (option_ex contains_yield v) (option_ex contains_lambda v) [] ?d0)"
      by (rule settlesD)
    have vN: "(v' = None) = (v = None)"
      using 1 by (rule visit_optional_None_iff)
    then have vN': "(v' \<noteq> None) = (v \<noteq> None)" by simp
    have x': "x' = Return v'"
      using run
      by (simp add: visit_Return_after [OF ok] 1 del: after_after option_ex_never not_None_eq)
    have again: "visit_stmt c2 (Return v') =
        Inr (Return v', after (return_in_scope (Return v)) (raise_in_scope (Return v))
          (yield_in_scope (Return v)) (lambda_in_stmt (Return v)) [] c2)"
      by (simp add: visit_Return_after [OF ok2] vN' a1
          del: after_after option_ex_never not_None_eq) simp
    show "return_in_scope x' = return_in_scope (Return v)
        \<and> raise_in_scope x' = raise_in_scope (Return v)
        \<and> yield_in_scope x' = yield_in_scope (Return v)
        \<and> lambda_in_stmt x' = lambda_in_stmt (Return v)
        \<and> visit_stmt c2 x' =
            Inr (x', after (return_in_scope (Return v)) (raise_in_scope (Return v))
              (yield_in_scope (Return v)) (lambda_in_stmt (Return v)) [] c2)"
      unfolding x' using f1 vN again by simp
  qed
next
  case (Raise exc cause)
  have t_o: "tracks (visit_optional visit_expr) (option_ex (\<lambda>_. False)) (option_ex (\<lambda>_. False))
              (option_ex contains_yield) (option_ex contains_lambda) v" for v
    by (rule tracks_optional) (rule tracks_expr)
  have s_o: "settles (visit_optional visit_expr) (option_ex (\<lambda>_. False))
              (option_ex (\<lambda>_. False)) (option_ex contains_yield) (option_ex contains_lambda) v"
    for v
    by (rule settles_optional) (simp_all add: tracks_expr settles_expr)
  show ?case
  proof (rule settlesI)
    fix c c2 x' c'
    assume ag: "agree c c2" and run: "visit_stmt c (Raise exc cause) = Inr (x', c')"
    from ag have ok: "stacks_nonempty c" and ok2: "stacks_nonempty c2"
      by (simp_all add: agree_def)
    let ?c0 = "after False True False False [] c"
    let ?d0 = "after False True False False [] c2"
    have ag0: "agree ?c0 ?d0" using ag by (rule agree_after)
    have r1: "\<exists>res. visit_optional visit_expr ?c0 exc = Inr res"
      using run
      by (auto simp: visit_Raise_after [OF ok] simp del: after_after list_ex_never option_ex_never not_None_eq
          leave_Param.simps leave_FunctionDef.simps split: sum.splits)
    from t_o s_o ag0 r1 obtain exc' i1 where
      1: "visit_optional visit_expr ?c0 exc =
            Inr (exc', after (option_ex (\<lambda>_. False) exc) (option_ex (\<lambda>_. False) exc)
                   (option_ex contains_yield exc) (option_ex contains_lambda exc) i1 ?c0)"
      and f1: "option_ex contains_yield exc' = option_ex contains_yield exc"
        "option_ex contains_lambda exc' = option_ex contains_lambda exc"
      and a1: "visit_optional visit_expr ?d0 exc' =
            Inr (exc', after (option_ex (\<lambda>_. False) exc) (option_ex (\<lambda>_. False) exc)
                   (option_ex contains_yield exc) (option_ex contains_lambda exc) [] ?d0)"
      by (rule settlesD)
    let ?c1 = "after (option_ex (\<lambda>_. False) exc) (option_ex (\<lambda>_. False) exc)
                   (option_ex contains_yield exc) (option_ex contains_lambda exc) i1 ?c0"
    let ?d1 = "after (option_ex (\<lambda>_. False) exc) (option_ex (\<lambda>_. False) exc)
                   (option_ex contains_yield exc) (option_ex contains_lambda exc) [] ?d0"
    have ag1: "agree ?c1 ?d1" using ag0 by (rule agree_after)
    have r2: "\<exists>res. visit_optional visit_expr ?c1 cause = Inr res"
      using run
      by (auto simp: 1 visit_Raise_after [OF ok] simp del: after_after list_ex_never option_ex_never not_None_eq
          leave_Param.simps leave_FunctionDef.simps split: sum.splits)
    from t_o s_o ag1 r2 obtain cause' i2 where
      2: "visit_optional visit_expr ?c1 cause =
            Inr (cause', after (option_ex (\<lambda>_. False) cause) (option_ex (\<lambda>_. False) cause)
                   (option_ex contains_yield cause) (option_ex contains_lambda cause) i2 ?c1)"
      and f2: "option_ex contains_yield cause' = option_ex contains_yield cause"
        "option_ex contains_lambda cause' = option_ex contains_lambda cause"
      and a2: "visit_optional visit_expr ?d1 cause' =
            Inr (cause', after (option_ex (\<lambda>_. False) cause) (option_ex (\<lambda>_. False) cause)
                   (option_ex contains_yield cause) (option_ex contains_lambda cause) [] ?d1)"
      by (rule settlesD)
    have x': "x' = Raise exc' cause'"
      using run
      by (simp add: visit_Raise_after [OF ok] 1 2 del: after_after option_ex_never)
    have again: "visit_stmt c2 (Raise exc' cause') =
        Inr (Raise exc' cause', after (return_in_scope (Raise exc cause))
          (raise_in_scope (Raise exc cause)) (yield_in_scope (Raise exc cause))
          (lambda_in_stmt (Raise exc cause)) [] c2)"
      by (simp add: visit_Raise_after [OF ok2] a1 a2 del: after_after option_ex_never) simp
    show "return_in_scope x' = return_in_scope (Raise exc cause)
        \<and> raise_in_scope x' = raise_in_scope (Raise exc cause)
        \<and> yield_in_scope x' = yield_in_scope (Raise exc cause)
        \<and> lambda_in_stmt x' = lambda_in_stmt (Raise exc cause)
        \<and> visit_stmt c2 x' =
            Inr (x', after (return_in_scope (Raise exc cause))
              (raise_in_scope (Raise exc cause)) (yield_in_scope (Raise exc cause))
              (lambda_in_stmt (Raise exc cause)) [] c2)"
      unfolding x' using f1 f2 again by simp
  qed
next
  case (SimpleStmt es)
  have t_es: "tracks (visit_sequence visit_expr) (list_ex (\<lambda>_. False)) (list_ex (\<lambda>_. False))
              (list_ex contains_yield) (list_ex contains_lambda) es"
    by (rule tracks_sequence) (rule tracks_expr)
  have s_es: "settles (visit_sequence visit_expr) (list_ex (\<lambda>_. False)) (list_ex (\<lambda>_. False))
              (list_ex contains_yield) (list_ex contains_lambda) es"
    by (rule settles_sequence) (simp_all add: tracks_expr settles_expr)
  show ?case
  proof (rule settlesI)
    fix c c2 x' c'
    assume ag: "agree c c2" and run: "visit_stmt c (SimpleStmt es) = Inr (x', c')"
    have r1: "\<exists>res. visit_sequence visit_expr c es = Inr res"
      using run
      by (auto simp del: after_after list_ex_never option_ex_never not_None_eq
          leave_Param.simps leave_FunctionDef.simps split: sum.splits)
    from t_es s_es ag r1 obtain es' i1 where
      1: "visit_sequence visit_expr c es =
            Inr (es', after (list_ex (\<lambda>_. False) es) (list_ex (\<lambda>_. False) es)
                   (list_ex contains_yield es) (list_ex contains_lambda es) i1 c)"
      and f1: "list_ex contains_yield es' = list_ex contains_yield es"
        "list_ex contains_lambda es' = list_ex contains_lambda es"
      and a1: "visit_sequence visit_expr c2 es' =
            Inr (es', after (list_ex (\<lambda>_. False) es) (list_ex (\<lambda>_. False) es)
                   (list_ex contains_yield es) (list_ex contains_lambda es) [] c2)"
      by (rule settlesD)
    have x': "x' = SimpleStmt es'"
      using run by (simp add: 1 del: after_after list_ex_never)
    have again: "visit_stmt c2 (SimpleStmt es') =
        Inr (SimpleStmt es', after (return_in_scope (SimpleStmt es))
          (raise_in_scope (SimpleStmt es)) (yield_in_scope (SimpleStmt es))
          (lambda_in_stmt (SimpleStmt es)) [] c2)"
      by (simp add: a1 del: after_after list_ex_never) simp
    show "return_in_scope x' = return_in_scope (SimpleStmt es)
        \<and> raise_in_scope x' = raise_in_scope (SimpleStmt es)
        \<and> yield_in_scope x' = yield_in_scope (SimpleStmt es)
        \<and> lambda_in_stmt x' = lambda_in_stmt (SimpleStmt es)
        \<and> visit_stmt c2 x' =
            Inr (x', after (return_in_scope (SimpleStmt es))
              (raise_in_scope (SimpleStmt es)) (yield_in_scope (SimpleStmt es))
              (lambda_in_stmt (SimpleStmt es)) [] c2)"
      unfolding x' using f1 again by simp
  qed
next
  case (CompoundStmt ss)
  have t_ss: "tracks (visit_sequence visit_stmt) (list_ex return_in_scope)
              (list_ex raise_in_scope) (list_ex yield_in_scope) (list_ex lambda_in_stmt) ss"
    by (rule tracks_sequence) (rule tracks_stmt)
  have s_ss: "settles (visit_sequence visit_stmt) (list_ex return_in_scope)
              (list_ex raise_in_scope) (list_ex yield_in_scope) (list_ex lambda_in_stmt) ss"
    by (rule settles_sequence) (simp_all add: tracks_stmt CompoundStmt.IH)
  show ?case
  proof (rule settlesI)
    fix c c2 x' c'
    assume ag: "agree c c2" and run: "visit_stmt c (CompoundStmt ss) = Inr (x', c')"
    have r1: "\<exists>res. visit_sequence visit_stmt c ss = Inr res"
      using run
      by (auto simp del: after_after list_ex_never option_ex_never not_None_eq
          leave_Param.simps leave_FunctionDef.simps split: sum.splits)
    from t_ss s_ss ag r1 obtain ss' i1 where
      1: "visit_sequence visit_stmt c ss =
            Inr (ss', after (list_ex return_in_scope ss) (list_ex raise_in_scope ss)
                   (list_ex yield_in_scope ss) (list_ex lambda_in_stmt ss) i1 c)"
      and f1: "list_ex return_in_scope ss' = list_ex return_in_scope ss"
        "list_ex raise_in_scope ss' = list_ex raise_in_scope ss"
        "list_ex yield_in_scope ss' = list_ex yield_in_scope ss"
        "list_ex lambda_in_stmt ss' = list_ex lambda_in_stmt ss"
      and a1: "visit_sequence visit_stmt c2 ss' =
            Inr (ss', after (list_ex return_in_scope ss) (list_ex raise_in_scope ss)
                   (list_ex yield_in_scope ss) (list_ex lambda_in_stmt ss) [] c2)"
      by (rule settlesD)
    have x': "x' = CompoundStmt ss'"
      using run by (simp add: 1)
    have again: "visit_stmt c2 (CompoundStmt ss') =
        Inr (CompoundStmt ss', after (return_in_scope (CompoundStmt ss))
          (raise_in_scope (CompoundStmt ss)) (yield_in_scope (CompoundStmt ss))
          (lambda_in_stmt (CompoundStmt ss)) [] c2)"
      by (simp add: a1)
    show "return_in_scope x' = return_in_scope (CompoundStmt ss)
        \<and> raise_in_scope x' = raise_in_scope (CompoundStmt ss)
        \<and> yield_in_scope x' = yield_in_scope (CompoundStmt ss)
        \<and> lambda_in_stmt x' = lambda_in_stmt (CompoundStmt ss)
        \<and> visit_stmt c2 x' =
            Inr (x', after (return_in_scope (CompoundStmt ss))
              (raise_in_scope (CompoundStmt ss)) (yield_in_scope (CompoundStmt ss))
              (lambda_in_stmt (CompoundStmt ss)) [] c2)"
      unfolding x' using f1 again by simp
  qed
next
  case (FunctionDef ds n ps r b)
  have t_ds: "tracks (visit_sequence visit_expr) (list_ex (\<lambda>_. False)) (list_ex (\<lambda>_. False))
              (list_ex contains_yield) (list_ex contains_lambda) ds"
    by (rule tracks_sequence) (rule tracks_expr)
  have s_ds: "settles (visit_sequence visit_expr) (list_ex (\<lambda>_. False)) (list_ex (\<lambda>_. False))
              (list_ex contains_yield) (list_ex contains_lambda) ds"
    by (rule settles_sequence) (simp_all add: tracks_expr settles_expr)
  have t_ps: "tracks (visit_sequence visit_param) (list_ex (\<lambda>_. False)) (list_ex (\<lambda>_. False))
              (list_ex param_contains_yield) (list_ex param_contains_lambda) ps"
    by (rule tracks_sequence) (rule tracks_param)
  have s_ps: "settles (visit_sequence visit_param) (list_ex (\<lambda>_. False)) (list_ex (\<lambda>_. False))
              (list_ex param_contains_yield) (list_ex param_contains_lambda) ps"
    by (rule settles_sequence) (simp_all add: tracks_param settles_param)
  have t_r: "tracks (visit_optional visit_expr) (option_ex (\<lambda>_. False)) (option_ex (\<lambda>_. False))
              (option_ex contains_yield) (option_ex contains_lambda) r"
    by (rule tracks_optional) (rule tracks_expr)
  have s_r: "settles (visit_optional visit_expr) (option_ex (\<lambda>_. False))
              (option_ex (\<lambda>_. False)) (option_ex contains_yield) (option_ex contains_lambda) r"
    by (rule settles_optional) (simp_all add: tracks_expr settles_expr)
  have t_b: "tracks (visit_sequence visit_stmt) (list_ex return_in_scope)
              (list_ex raise_in_scope) (list_ex yield_in_scope) (list_ex lambda_in_stmt) b"
    by (rule tracks_sequence) (rule tracks_stmt)
  have s_b: "settles (visit_sequence visit_stmt) (list_ex return_in_scope)
              (list_ex raise_in_scope) (list_ex yield_in_scope) (list_ex lambda_in_stmt) b"
    by (rule settles_sequence) (simp_all add: tracks_stmt FunctionDef.IH)
  show ?case
  proof (rule settlesI)
    fix c c2 x' c'
    assume ag: "agree c c2"
      and run: "visit_funcdef c (FunctionDef ds n ps r b) = Inr (x', c')"
    let ?c0 = "visit_FunctionDef c"
    let ?d0 = "visit_FunctionDef c2"
    have ag0: "agree ?c0 ?d0" using ag by (rule agree_visit_FunctionDef)
    have r1: "\<exists>res. visit_sequence visit_expr ?c0 ds = Inr res"
      using run
      by (auto simp del: after_after list_ex_never option_ex_never not_None_eq
          leave_Param.simps leave_FunctionDef.simps split: sum.splits)
    from t_ds s_ds ag0 r1 obtain ds' i1 where
      1: "visit_sequence visit_expr ?c0 ds =
            Inr (ds', after (list_ex (\<lambda>_. False) ds) (list_ex (\<lambda>_. False) ds)
                   (list_ex contains_yield ds) (list_ex contains_lambda ds) i1 ?c0)"
      and f1: "list_ex contains_lambda ds' = list_ex contains_lambda ds"
      and a1: "visit_sequence visit_expr ?d0 ds' =
            Inr (ds', after (list_ex (\<lambda>_. False) ds) (list_ex (\<lambda>_. False) ds)
                   (list_ex contains_yield ds) (list_ex contains_lambda ds) [] ?d0)"
      by (rule settlesD)
    let ?c1 = "after (list_ex (\<lambda>_. False) ds) (list_ex (\<lambda>_. False) ds)
                   (list_ex contains_yield ds) (list_ex contains_lambda ds) i1 ?c0"
    let ?d1 = "after (list_ex (\<lambda>_. False) ds) (list_ex (\<lambda>_. False) ds)
                   (list_ex contains_yield ds) (list_ex contains_lambda ds) [] ?d0"
    have ag1: "agree ?c1 ?d1" using ag0 by (rule agree_after)
    have r2: "\<exists>res. visit_sequence visit_param ?c1 ps = Inr res"
      using run
      by (auto simp: 1 simp del: after_after list_ex_never option_ex_never not_None_eq
          leave_Param.simps leave_FunctionDef.simps split: sum.splits)
    from t_ps s_ps ag1 r2 obtain ps' i2 where
      2: "visit_sequence visit_param ?c1 ps =
            Inr (ps', after (list_ex (\<lambda>_. False) ps) (list_ex (\<lambda>_. False) ps)
                   (list_ex param_contains_yield ps) (list_ex param_contains_lambda ps) i2 ?c1)"
      and f2: "list_ex param_contains_lambda ps' = list_ex param_contains_lambda ps"
      and a2: "visit_sequence visit_param ?d1 ps' =
            Inr (ps', after (list_ex (\<lambda>_. False) ps) (list_ex (\<lambda>_. False) ps)
                   (list_ex param_contains_yield ps) (list_ex param_contains_lambda ps) [] ?d1)"
      by (rule settlesD)
    let ?c2 = "after (list_ex (\<lambda>_. False) ps) (list_ex (\<lambda>_. False) ps)
                   (list_ex param_contains_yield ps) (list_ex param_contains_lambda ps) i2 ?c1"
    let ?d2 = "after (list_ex (\<lambda>_. False) ps) (list_ex (\<lambda>_. False) ps)
                   (list_ex param_contains_yield ps) (list_ex param_contains_lambda ps) [] ?d1"
    have ag2: "agree ?c2 ?d2" using ag1 by (rule agree_after)
    have r3: "\<exists>res. visit_optional visit_expr ?c2 r = Inr res"
      using run
      by (auto simp: 1 2 simp del: after_after list_ex_never option_ex_never not_None_eq
          leave_Param.simps leave_FunctionDef.simps split: sum.splits)
    from t_r s_r ag2 r3 obtain r' i3 where
      3: "visit_optional visit_expr ?c2 r =
            Inr (r', after (option_ex (\<lambda>_. False) r) (option_ex (\<lambda>_. False) r)
                   (option_ex contains_yield r) (option_ex contains_lambda r) i3 ?c2)"
      and f3: "option_ex contains_lambda r' = option_ex contains_lambda r"
      and a3: "visit_optional visit_expr ?d2 r' =
            Inr (r', after (option_ex (\<lambda>_. False) r) (option_ex (\<lambda>_. False) r)
                   (option_ex contains_yield r) (option_ex contains_lambda r) [] ?d2)"
      by (rule settlesD)
    let ?c3 = "after (option_ex (\<lambda>_. False) r) (option_ex (\<lambda>_. False) r)
                   (option_ex contains_yield r) (option_ex contains_lambda r) i3 ?c2"
    let ?d3 = "after (option_ex (\<lambda>_. False) r) (option_ex (\<lambda>_. False) r)
                   (option_ex contains_yield r) (option_ex contains_lambda r) [] ?d2"
    have ag3: "agree ?c3 ?d3" using ag2 by (rule agree_after)
    have r4: "\<exists>res. visit_sequence visit_stmt ?c3 b = Inr res"
      using run
      by (auto simp: 1 2 3 simp del: after_after list_ex_never option_ex_never not_None_eq
          leave_Param.simps leave_FunctionDef.simps split: sum.splits)
    from t_b s_b ag3 r4 obtain b' i4 where
      4: "visit_sequence visit_stmt ?c3 b =
            Inr (b', after (list_ex return_in_scope b) (list_ex raise_in_scope b)
                   (list_ex yield_in_scope b) (list_ex lambda_in_stmt b) i4 ?c3)"
      and f4: "list_ex lambda_in_stmt b' = list_ex lambda_in_stmt b"
      and a4: "visit_sequence visit_stmt ?d3 b' =
            Inr (b', after (list_ex return_in_scope b) (list_ex raise_in_scope b)
                   (list_ex yield_in_scope b) (list_ex lambda_in_stmt b) [] ?d3)"
      by (rule settlesD)
    let ?c4 = "after (list_ex return_in_scope b) (list_ex raise_in_scope b)
                   (list_ex yield_in_scope b) (list_ex lambda_in_stmt b) i4 ?c3"
    let ?d4 = "after (list_ex return_in_scope b) (list_ex raise_in_scope b)
                   (list_ex yield_in_scope b) (list_ex lambda_in_stmt b) [] ?d3"
    have ag4: "agree ?c4 ?d4" using ag3 by (rule agree_after)
    have leave: "leave_FunctionDef ?c4 (FunctionDef ds n ps r b) (FunctionDef ds' n ps' r' b')
                   = Inr (x', c')"
      using run
      by (simp add: 1 2 3 4
          del: after_after list_ex_never option_ex_never leave_FunctionDef.simps)
    have ok4: "stacks_nonempty ?c4" and okd4: "stacks_nonempty ?d4"
      using ag4 by (simp_all only: agree_def)
    have r'N: "(r' = None) = (r = None)"
      using 3 by (rule visit_optional_None_iff)
    from leave_FunctionDef_cases [OF ok4 leave]
    obtain pr where x': "x' = FunctionDef ds' n ps' pr b'"
      and pr: "pr = r' \<or> (r = None \<and> (\<exists>t. pr = Some (Name t)))"
      by blast
    have fl: "option_ex contains_lambda pr = option_ex contains_lambda r"
      using pr f3 by auto
    have again_pr: "visit_optional visit_expr ?d2 pr = Inr (pr, ?d3)"
    proof -
      from pr consider "pr = r'" | t where "r = None" "pr = Some (Name t)"
        by blast
      then show ?thesis
      proof cases
        case 1
        then show ?thesis using a3 by simp
      next
        case 2
        then show ?thesis by simp
      qed
    qed
    have tops: "last (seen_return_statement (state ?d4)) = last (seen_return_statement (state ?c4))"
      "last (seen_raise_statement (state ?d4)) = last (seen_raise_statement (state ?c4))"
      "last (seen_yield (state ?d4)) = last (seen_yield (state ?c4))"
      by (simp_all add: visit_FunctionDef_def)
    have cfg: "config ?d4 = config ?c4"
      using ag4 by (simp only: agree_def)
    have settled: "leave_FunctionDef ?d4 (FunctionDef ds' n ps' pr b')
          (FunctionDef ds' n ps' pr b') = Inr (FunctionDef ds' n ps' pr b', pop_frames ?d4)"
      using ok4 okd4 cfg tops leave [unfolded x'] r'N by (rule leave_FunctionDef_settled)
    have "visit_funcdef c2 (FunctionDef ds' n ps' pr b') =
        Inr (FunctionDef ds' n ps' pr b', pop_frames ?d4)"
      by (simp add: a1 a2 again_pr a4 settled
          del: after_after list_ex_never option_ex_never leave_FunctionDef.simps)
    also have "pop_frames ?d4 =
        after False False False (lambda_in_funcdef (FunctionDef ds n ps r b)) [] c2"
      by (simp add: pop_frames_after_visit_FunctionDef)
    finally have again: "visit_funcdef c2 (FunctionDef ds' n ps' pr b') =
        Inr (FunctionDef ds' n ps' pr b',
          after False False False (lambda_in_funcdef (FunctionDef ds n ps r b)) [] c2)" .
    show "False = False \<and> False = False \<and> False = False
        \<and> lambda_in_funcdef x' = lambda_in_funcdef (FunctionDef ds n ps r b)
        \<and> visit_funcdef c2 x' =
            Inr (x', after False False False
              (lambda_in_funcdef (FunctionDef ds n ps r b)) [] c2)"
      unfolding x' using f1 f2 fl f4 again by simp
  qed
qed

lemma agree_refl: "stacks_nonempty c \<Longrightarrow> agree c c"
  by (simp add: agree_def)

lemma transform_module_impl_settled:
  assumes ok: "stacks_nonempty c"
    and run: "transform_module_impl c tree = Inr (tree', c')"
  shows "\<exists>c''. transform_module_impl c tree' = Inr (tree', c'')
           \<and> needed_imports c'' = needed_imports c"
proof -
  have "settles (visit_sequence visit_stmt) (list_ex return_in_scope)
          (list_ex raise_in_scope) (list_ex yield_in_scope) (list_ex lambda_in_stmt) tree"
    by (rule settles_sequence) (simp_all add: tracks_stmt settles_stmt)
  with agree_refl [OF ok] run
  have "visit_sequence visit_stmt c tree' =
      Inr (tree', after (list_ex return_in_scope tree) (list_ex raise_in_scope tree)
        (list_ex yield_in_scope tree) (list_ex lambda_in_stmt tree) [] c)"
    unfolding settles_def transform_module_impl_def by blast
  then show ?thesis
    by (simp add: transform_module_impl_def after_def)
qed

lemma visit_sequence_unchanged:
  assumes "\<And>x c. x \<in> set xs \<Longrightarrow> f c x = Inr (x, c)"
  shows "visit_sequence f c xs = Inr (xs, c)"
  using assms by (induction xs arbitrary: c) simp_all

lemma visit_plain_expr:
  "\<not> contains_lambda e \<Longrightarrow> \<not> contains_yield e \<Longrightarrow> visit_expr c e = Inr (e, c)"
  and "(p::param) = p"
proof (induction e and p arbitrary: c)
  case (Subscript v slice)
  have "visit_sequence visit_expr c slice = Inr (slice, c)" for c
    using Subscript by (intro visit_sequence_unchanged) (auto simp: list_ex_iff)
  with Subscript show ?case by simp
next
  case (OtherExpr l es)
  have "visit_sequence visit_expr c es = Inr (es, c)" for c
    using OtherExpr by (intro visit_sequence_unchanged) (auto simp: list_ex_iff)
  then show ?case by simp
qed simp_all

lemma visit_import_like:
  assumes "import_like s"
  shows "visit_stmt c s = Inr (s, c)"
proof (cases s)
  case (SimpleStmt es)
  with assms have "visit_sequence visit_expr c es = Inr (es, c)"
    by (intro visit_sequence_unchanged visit_plain_expr) (auto simp: list_ex_iff)
  with SimpleStmt show ?thesis by simp
qed (use assms in simp_all)

lemma import_like_no_lambda: "import_like s \<Longrightarrow> \<not> lambda_in_stmt s"
  by (cases s) simp_all

lemma skip_import_like:
  assumes "\<forall>s\<in>set pre. import_like s"
  shows "visit_sequence visit_stmt d (pre @ rest) =
     (case visit_sequence visit_stmt d rest of
        Inl e \<Rightarrow> Inl e
      | Inr (rest', d') \<Rightarrow> Inr (pre @ rest', d'))"
  using assms
  by (induction pre) (auto simp: visit_import_like split: sum.splits)

lemma rerun_modulo_import_like:
  assumes "agree c d"
    and "visit_sequence visit_stmt c xs = Inr (ys, c')"
    and "filter (\<lambda>s. \<not> import_like s) zs = filter (\<lambda>s. \<not> import_like s) ys"
  shows "\<exists>d'. visit_sequence visit_stmt d zs = Inr (zs, d')
           \<and> needed_imports d' = needed_imports d"
  using assms
proof (induction xs arbitrary: c d ys zs c')
  case Nil
  then have "ys = []" by simp
  with Nil.prems(3) have "\<forall>s\<in>set zs. import_like s"
    by (simp add: filter_empty_conv)
  then have "visit_sequence visit_stmt d zs = Inr (zs, d)"
    using skip_import_like [of zs d "[]"] by simp
  then show ?case by simp
next
  case (Cons x xs)
  have "\<exists>res. visit_stmt c x = Inr res"
    using Cons.prems(2) by (auto split: sum.splits)
  with tracks_stmt settles_stmt Cons.prems(1) obtain y i1 where
    1: "visit_stmt c x = Inr (y, after (return_in_scope x) (raise_in_scope x)
          (yield_in_scope x) (lambda_in_stmt x) i1 c)"
    and lam: "lambda_in_stmt y = lambda_in_stmt x"
    and a1: "visit_stmt d y = Inr (y, after (return_in_scope x) (raise_in_scope x)
          (yield_in_scope x) (lambda_in_stmt x) [] d)"
    by (rule settlesD)
  let ?c1 = "after (return_in_scope x) (raise_in_scope x) (yield_in_scope x)
               (lambda_in_stmt x) i1 c"
  let ?d1 = "after (return_in_scope x) (raise_in_scope x) (yield_in_scope x)
               (lambda_in_stmt x) [] d"
  from Cons.prems(2) obtain ys' where ys: "ys = y # ys'"
    and rest: "visit_sequence visit_stmt ?c1 xs = Inr (ys', c')"
    by (auto simp: 1 split: sum.splits)
  show ?case
  proof (cases "import_like y")
    case True
    then have "\<not> lambda_in_stmt x"
      using lam import_like_no_lambda by simp
    with Cons.prems(1) have ag1: "agree ?c1 d"
      by (simp add: agree_def after_def stacks_nonempty_def config_def)
    from Cons.prems(3) ys True
    have "filter (\<lambda>s. \<not> import_like s) zs = filter (\<lambda>s. \<not> import_like s) ys'"
      by simp
    with Cons.IH [OF ag1 rest] show ?thesis by blast
  next
    case False
    with Cons.prems(3) ys
    have "filter (\<lambda>s. \<not> import_like s) zs = y # filter (\<lambda>s. \<not> import_like s) ys'"
      by simp
    then obtain pre zs' where zs: "zs = pre @ y # zs'"
      and pre: "\<forall>s\<in>set pre. import_like s"
      and zs': "filter (\<lambda>s. \<not> import_like s) zs' = filter (\<lambda>s. \<not> import_like s) ys'"
      by (auto simp: filter_eq_Cons_iff)
    have ag1: "agree ?c1 ?d1"
      using Cons.prems(1) by (rule agree_after)
    from Cons.IH [OF ag1 rest zs'] obtain d' where
      2: "visit_sequence visit_stmt ?d1 zs' = Inr (zs', d')"
      and imps: "needed_imports d' = needed_imports ?d1"
      by blast
    have "visit_sequence visit_stmt d zs = Inr (zs, d')"
      unfolding zs skip_import_like [OF pre] by (simp add: a1 2)
    moreover have "needed_imports d' = needed_imports d"
      using imps by (simp add: after_def)
    ultimately show ?thesis by blast
  qed
qed

text \<open>
  Claim C3. If an invocation returns a tree, the same invocation on that tree returns it
  unchanged and requests no import. The same holds for every tree that differs from the
  returned one only in statements the visitor passes over, as the returned tree with the
  requested import statements inserted does. More generally, from any command with
  non-empty stacks, the traversal of the tree a traversal returned gives that tree back
  and leaves the import requests as they were. The guards behind it: a parameter that
  has an annotation and a function definition that has a return annotation come back
  from their handlers as the updated node, untouched.
\<close>

theorem run_idempotent:
  "(run ao an mg im nr bp tree = Inr (tree', imports) \<longrightarrow>
      run ao an mg im nr bp tree' = Inr (tree', []))
   \<and> (run ao an mg im nr bp tree = Inr (tree', imports)
        \<and> filter (\<lambda>s. \<not> import_like s) tree2 = filter (\<lambda>s. \<not> import_like s) tree' \<longrightarrow>
      run ao an mg im nr bp tree2 = Inr (tree2, []))
   \<and> (stacks_nonempty c \<and> transform_module_impl c tree = Inr (tree', c') \<longrightarrow>
        (\<exists>c''. transform_module_impl c tree' = Inr (tree', c'')
           \<and> needed_imports c'' = needed_imports c))
   \<and> leave_Param c (Param n (Some a) d) updated_param = Inr (updated_param, c)
   \<and> (stacks_nonempty c \<longrightarrow>
        leave_FunctionDef c (FunctionDef ds fn ps (Some a) b) updated_function
          = Inr (updated_function, pop_frames c))"
proof -
  have modulo: "run ao an mg im nr bp tree2 = Inr (tree2, [])"
    if run1: "run ao an mg im nr bp tree = Inr (tree', imports)"
      and same: "filter (\<lambda>s. \<not> import_like s) tree2 = filter (\<lambda>s. \<not> import_like s) tree'"
    for tree2
  proof -
    from run1 obtain c0 where i: "init ao an mg im nr bp = Inr c0"
      by (auto simp: run_def split: sum.splits)
    with run1 obtain c1 where t: "visit_sequence visit_stmt c0 tree = Inr (tree', c1)"
      by (auto simp: run_def transform_module_impl_def split: sum.splits)
    have ok0: "stacks_nonempty c0" and no: "needed_imports c0 = []"
      using init_stacks [OF i] by (simp_all add: stacks_nonempty_def)
    from rerun_modulo_import_like [OF agree_refl [OF ok0] t same] obtain c2 where
      "visit_sequence visit_stmt c0 tree2 = Inr (tree2, c2)"
      and "needed_imports c2 = needed_imports c0"
      by blast
    with i no show ?thesis
      by (simp add: run_def transform_module_impl_def)
  qed
  have plain: "run ao an mg im nr bp tree' = Inr (tree', [])"
    if "run ao an mg im nr bp tree = Inr (tree', imports)"
    using modulo [OF that refl] .
  have command: "\<exists>c''. transform_module_impl c tree' = Inr (tree', c'')
           \<and> needed_imports c'' = needed_imports c"
    if "stacks_nonempty c \<and> transform_module_impl c tree = Inr (tree', c')"
    using that transform_module_impl_settled by blast
  have param: "leave_Param c (Param n (Some a) d) updated_param = Inr (updated_param, c)"
    by simp
  have func: "leave_FunctionDef c (FunctionDef ds fn ps (Some a) b) updated_function
          = Inr (updated_function, pop_frames c)" if "stacks_nonempty c"
    using that by (simp add: leave_FunctionDef_nonempty del: leave_FunctionDef.simps)
  from modulo plain command param func show ?thesis by blast
qed

theorem run_idempotent_witness:
  "run (Some [''x:mymod.Foo'']) None True True True True
     [FunctionDefStmt (FunctionDef [] ''__iter__''
        [Param ''x'' None (Some (Name ''None'')), Param ''flag'' None (Some (Name ''True''))]
        None [Return (Some (OtherExpr ''0'' []))]),
      FunctionDefStmt (FunctionDef [] ''f'' [] None [])]
   = Inr ([FunctionDefStmt (FunctionDef [] ''__iter__''
        [Param ''x'' (Some (Subscript (Name ''Optional'') [Name ''Foo''])) (Some (Name ''None'')),
         Param ''flag'' (Some (Name ''bool'')) (Some (Name ''True''))]
        (Some (Name ''Iterator'')) [Return (Some (OtherExpr ''0'' []))]),
      FunctionDefStmt (FunctionDef [] ''f'' [] (Some (Name ''None'')) [])],
     [(''mymod'', ''Foo''), (''typing'', ''Optional''), (''typing'', ''Iterator'')])
   \<and> run (Some [''x:mymod.Foo'']) None True True True True
     [FunctionDefStmt (FunctionDef [] ''__iter__''
        [Param ''x'' (Some (Subscript (Name ''Optional'') [Name ''Foo''])) (Some (Name ''None'')),
         Param ''flag'' (Some (Name ''bool'')) (Some (Name ''True''))]
        (Some (Name ''Iterator'')) [Return (Some (OtherExpr ''0'' []))]),
      FunctionDefStmt (FunctionDef [] ''f'' [] (Some (Name ''None'')) [])]
   = Inr ([FunctionDefStmt (FunctionDef [] ''__iter__''
        [Param ''x'' (Some (Subscript (Name ''Optional'') [Name ''Foo''])) (Some (Name ''None'')),
         Param ''flag'' (Some (Name ''bool'')) (Some (Name ''True''))]
        (Some (Name ''Iterator'')) [Return (Some (OtherExpr ''0'' []))]),
      FunctionDefStmt (FunctionDef [] ''f'' [] (Some (Name ''None'')) [])], [])
   \<and> run (Some [''x:mymod.Foo'']) None True True True True
     [SimpleStmt [OtherExpr ''from typing import Iterator, Optional'' []],
      FunctionDefStmt (FunctionDef [] ''__iter__''
        [Param ''x'' (Some (Subscript (Name ''Optional'') [Name ''Foo''])) (Some (Name ''None'')),
         Param ''flag'' (Some (Name ''bool'')) (Some (Name ''True''))]
        (Some (Name ''Iterator'')) [Return (Some (OtherExpr ''0'' []))]),
      FunctionDefStmt (FunctionDef [] ''f'' [] (Some (Name ''None'')) [])]
   = Inr ([SimpleStmt [OtherExpr ''from typing import Iterator, Optional'' []],
      FunctionDefStmt (FunctionDef [] ''__iter__''
        [Param ''x'' (Some (Subscript (Name ''Optional'') [Name ''Foo''])) (Some (Name ''None'')),
         Param ''flag'' (Some (Name ''bool'')) (Some (Name ''True''))]
        (Some (Name ''Iterator'')) [Return (Some (OtherExpr ''0'' []))]),
      FunctionDefStmt (FunctionDef [] ''f'' [] (Some (Name ''None'')) [])], [])"
proof -
  have first: "run (Some [''x:mymod.Foo'']) None True True True True
     [FunctionDefStmt (FunctionDef [] ''__iter__''
        [Param ''x'' None (Some (Name ''None'')), Param ''flag'' None (Some (Name ''True''))]
        None [Return (Some (OtherExpr ''0'' []))]),
      FunctionDefStmt (FunctionDef [] ''f'' [] None [])]
   = Inr ([FunctionDefStmt (FunctionDef [] ''__iter__''
        [Param ''x'' (Some (Subscript (Name ''Optional'') [Name ''Foo''])) (Some (Name ''None'')),
         Param ''flag'' (Some (Name ''bool'')) (Some (Name ''True''))]
        (Some (Name ''Iterator'')) [Return (Some (OtherExpr ''0'' []))]),
      FunctionDefStmt (FunctionDef [] ''f'' [] (Some (Name ''None'')) [])],
     [(''mymod'', ''Foo''), (''typing'', ''Optional''), (''typing'', ''Iterator'')])"
    by (simp add: run_def init_def rules_of_def make_def rsplit1_def transform_module_impl_def
        visit_FunctionDef_def visit_Return_def set_last_True_def pop_def
        annotate_param_def new_Name_def xid_start_def xid_continue_def
        add_needed_import_def SIMPLE_MAGICS_def IMPRECISE_MAGICS_def)
  have same: "filter (\<lambda>s. \<not> import_like s)
      (SimpleStmt [OtherExpr ''from typing import Iterator, Optional'' []] #
       [FunctionDefStmt (FunctionDef [] ''__iter__''
        [Param ''x'' (Some (Subscript (Name ''Optional'') [Name ''Foo''])) (Some (Name ''None'')),
         Param ''flag'' (Some (Name ''bool'')) (Some (Name ''True''))]
        (Some (Name ''Iterator'')) [Return (Some (OtherExpr ''0'' []))]),
      FunctionDefStmt (FunctionDef [] ''f'' [] (Some (Name ''None'')) [])])
    = filter (\<lambda>s. \<not> import_like s)
       [FunctionDefStmt (FunctionDef [] ''__iter__''
        [Param ''x'' (Some (Subscript (Name ''Optional'') [Name ''Foo''])) (Some (Name ''None'')),
         Param ''flag'' (Some (Name ''bool'')) (Some (Name ''True''))]
        (Some (Name ''Iterator'')) [Return (Some (OtherExpr ''0'' []))]),
      FunctionDefStmt (FunctionDef [] ''f'' [] (Some (Name ''None'')) [])]"
    by simp
  from run_idempotent [THEN conjunct1, rule_format, OF first]
    run_idempotent [THEN conjunct2, THEN conjunct1, rule_format, OF conjI [OF first same]] first
  show ?thesis by simp
qed

section \<open>The return-type policy\<close>

text \<open>
  Claim C1. On leaving a function definition whose three stacks are non-empty, with no
  return annotation on the original node: (a) if bare-None-return is enabled and the
  popped frame recorded no raise, no value-returning return and no yield, the annotation
  \<open>None\<close> is attached, whatever the name is; (b) else if annotate-magics is enabled and
  the name is in \<open>SIMPLE_MAGICS\<close>, the table's type is attached; (c) else if
  annotate-imprecise-magics is enabled and the name is in \<open>IMPRECISE_MAGICS\<close>, the paired
  import is requested and its symbol attached; (d) else the node comes back unchanged.
  A function that already has a return annotation comes back unchanged. In every case
  the frames are popped. And the visit of any function definition, from a command with
  non-empty stacks, unless the visit of one of its children has raised the library's
  validation error, ends in this handler with the unchanged configuration and with the
  frame of the function's own facts on top: there rule (a) holds exactly when the toggle
  is on and the function's own scope holds no raise, no value-returning return and no
  yield. In terms of the traversal: once the decorators, the parameters, the return
  annotation and the body have been visited, the handler is called with the command they
  have left and with the node rebuilt from them, and rule (a) reads that command so.
\<close>

theorem leave_FunctionDef_return_policy:
  assumes "stacks_nonempty c"
  shows
    "(rule_a c \<longrightarrow>
        leave_FunctionDef c (FunctionDef ds n ps None b) upd
          = Inr (with_returns upd (Name ''None''), pop_frames c))
   \<and> (\<not> rule_a c \<and> rule_b c n \<longrightarrow>
        (\<exists>t. map_of SIMPLE_MAGICS n = Some t
           \<and> leave_FunctionDef c (FunctionDef ds n ps None b) upd
               = Inr (with_returns upd (Name t), pop_frames c)))
   \<and> (\<not> rule_a c \<and> \<not> rule_b c n \<and> rule_c c n \<longrightarrow>
        (\<exists>m sym. map_of IMPRECISE_MAGICS n = Some (m, sym)
           \<and> leave_FunctionDef c (FunctionDef ds n ps None b) upd
               = Inr (with_returns upd (Name sym), add_needed_import (pop_frames c) m sym)))
   \<and> (\<not> rule_a c \<and> \<not> rule_b c n \<and> \<not> rule_c c n \<longrightarrow>
        leave_FunctionDef c (FunctionDef ds n ps None b) upd = Inr (upd, pop_frames c))
   \<and> leave_FunctionDef c (FunctionDef ds n ps (Some a) b) upd = Inr (upd, pop_frames c)
   \<and> (stacks_nonempty c0 \<longrightarrow>
        visit_funcdef c0 (FunctionDef ds0 n ps0 r0 b0) = Inl CSTValidationError
        \<or> (\<exists>c4 upd0. visit_funcdef c0 (FunctionDef ds0 n ps0 r0 b0)
                        = leave_FunctionDef c4 (FunctionDef ds0 n ps0 r0 b0) upd0
           \<and> stacks_nonempty c4 \<and> config c4 = config c0
           \<and> rule_a c4 = (none_return (state c0)
                \<and> \<not> own_raise (FunctionDef ds0 n ps0 r0 b0)
                \<and> \<not> own_return (FunctionDef ds0 n ps0 r0 b0)
                \<and> \<not> own_yield (FunctionDef ds0 n ps0 r0 b0))
           \<and> rule_b c4 n = rule_b c0 n \<and> rule_c c4 n = rule_c c0 n))
   \<and> (stacks_nonempty c0
        \<and> visit_sequence visit_expr (visit_FunctionDef c0) ds0 = Inr (ds1, c1)
        \<and> visit_sequence visit_param c1 ps0 = Inr (ps1, c2)
        \<and> visit_optional visit_expr c2 r0 = Inr (r1, c3)
        \<and> visit_sequence visit_stmt c3 b0 = Inr (b1, c4) \<longrightarrow>
        visit_funcdef c0 (FunctionDef ds0 n ps0 r0 b0)
          = leave_FunctionDef c4 (FunctionDef ds0 n ps0 r0 b0) (FunctionDef ds1 n ps1 r1 b1)
        \<and> stacks_nonempty c4 \<and> config c4 = config c0
        \<and> rule_a c4 = (none_return (state c0)
             \<and> \<not> own_raise (FunctionDef ds0 n ps0 r0 b0)
             \<and> \<not> own_return (FunctionDef ds0 n ps0 r0 b0)
             \<and> \<not> own_yield (FunctionDef ds0 n ps0 r0 b0))
        \<and> rule_b c4 n = rule_b c0 n \<and> rule_c c4 n = rule_c c0 n)"
proof -
  note eq = leave_FunctionDef_nonempty [OF assms]
  have a: "leave_FunctionDef c (FunctionDef ds n ps None b) upd
          = Inr (with_returns upd (Name ''None''), pop_frames c)" if "rule_a c"
    using that by (simp add: eq del: leave_FunctionDef.simps)
  have b: "\<exists>t. map_of SIMPLE_MAGICS n = Some t
           \<and> leave_FunctionDef c (FunctionDef ds n ps None b) upd
               = Inr (with_returns upd (Name t), pop_frames c)"
    if "\<not> rule_a c" and "rule_b c n"
  proof -
    from \<open>rule_b c n\<close> obtain t where t: "map_of SIMPLE_MAGICS n = Some t"
      and mg: "annotate_magics (state c)"
      by (auto simp: rule_b_def)
    have "leave_FunctionDef c (FunctionDef ds n ps None b) upd
               = Inr (with_returns upd (Name t), pop_frames c)"
      using \<open>\<not> rule_a c\<close> by (simp add: eq t mg del: leave_FunctionDef.simps)
    with t show ?thesis by blast
  qed
  have nosimple: "(if annotate_magics (state c) then map_of SIMPLE_MAGICS n else None) = None"
    if "\<not> rule_b c n"
    using that by (auto simp: rule_b_def)
  have c: "\<exists>m sym. map_of IMPRECISE_MAGICS n = Some (m, sym)
           \<and> leave_FunctionDef c (FunctionDef ds n ps None b) upd
               = Inr (with_returns upd (Name sym), add_needed_import (pop_frames c) m sym)"
    if "\<not> rule_a c" and "\<not> rule_b c n" and "rule_c c n"
  proof -
    from \<open>rule_c c n\<close> obtain m sym where ms: "map_of IMPRECISE_MAGICS n = Some (m, sym)"
      and im: "annotate_imprecise_magics (state c)"
      by (auto simp: rule_c_def)
    have "leave_FunctionDef c (FunctionDef ds n ps None b) upd
               = Inr (with_returns upd (Name sym), add_needed_import (pop_frames c) m sym)"
      using \<open>\<not> rule_a c\<close> by (simp add: eq nosimple [OF \<open>\<not> rule_b c n\<close>] ms im del: leave_FunctionDef.simps)
    with ms show ?thesis by blast
  qed
  have d: "leave_FunctionDef c (FunctionDef ds n ps None b) upd = Inr (upd, pop_frames c)"
    if "\<not> rule_a c" and "\<not> rule_b c n" and "\<not> rule_c c n"
  proof -
    have noimp: "(if annotate_imprecise_magics (state c)
                  then map_of IMPRECISE_MAGICS n else None) = None"
      using \<open>\<not> rule_c c n\<close> by (auto simp: rule_c_def)
    show ?thesis
      using \<open>\<not> rule_a c\<close> by (simp add: eq nosimple [OF \<open>\<not> rule_b c n\<close>] noimp del: leave_FunctionDef.simps)
  qed
  have e: "leave_FunctionDef c (FunctionDef ds n ps (Some a) b) upd = Inr (upd, pop_frames c)"
    by (simp add: eq del: leave_FunctionDef.simps)
  have f: "visit_funcdef c0 (FunctionDef ds0 n ps0 r0 b0) = Inl CSTValidationError
        \<or> (\<exists>c4 upd0. visit_funcdef c0 (FunctionDef ds0 n ps0 r0 b0)
                        = leave_FunctionDef c4 (FunctionDef ds0 n ps0 r0 b0) upd0
           \<and> stacks_nonempty c4 \<and> config c4 = config c0
           \<and> rule_a c4 = (none_return (state c0)
                \<and> \<not> own_raise (FunctionDef ds0 n ps0 r0 b0)
                \<and> \<not> own_return (FunctionDef ds0 n ps0 r0 b0)
                \<and> \<not> own_yield (FunctionDef ds0 n ps0 r0 b0))
           \<and> rule_b c4 n = rule_b c0 n \<and> rule_c c4 n = rule_c c0 n)"
    if ok0: "stacks_nonempty c0"
  proof -
    let ?f = "FunctionDef ds0 n ps0 r0 b0"
    from visit_funcdef_children [OF tracks_stmt ok0]
    consider (fail) "visit_funcdef c0 ?f = Inl CSTValidationError"
      | (good) ds' ps' r' b' imps where
        "visit_funcdef c0 ?f =
            leave_FunctionDef
              (after (own_return ?f) (own_raise ?f) (own_yield ?f) (lambda_in_funcdef ?f)
                 imps (visit_FunctionDef c0))
              ?f (FunctionDef ds' n ps' r' b')"
      by blast
    then show ?thesis
    proof cases
      case fail
      then show ?thesis by blast
    next
      case good
      note 1 = good
      let ?c4 = "after (own_return ?f) (own_raise ?f) (own_yield ?f) (lambda_in_funcdef ?f)
                   imps (visit_FunctionDef c0)"
      have "stacks_nonempty ?c4" by simp
      moreover have "config (visit_FunctionDef c0) = config c0"
        by (simp add: config_def visit_FunctionDef_def)
      then have "config ?c4 = config c0"
        by simp
      moreover have "rule_a ?c4 = (none_return (state c0) \<and> \<not> own_raise ?f
          \<and> \<not> own_return ?f \<and> \<not> own_yield ?f)"
        by (simp add: rule_a_def last_after_visit_FunctionDef)
          (simp add: after_def visit_FunctionDef_def)
      moreover have "rule_b ?c4 n = rule_b c0 n" and "rule_c ?c4 n = rule_c c0 n"
        by (simp_all add: rule_b_def rule_c_def after_def visit_FunctionDef_def)
      ultimately show ?thesis using 1 by blast
    qed
  qed
  have g: "visit_funcdef c0 (FunctionDef ds0 n ps0 r0 b0)
          = leave_FunctionDef c4 (FunctionDef ds0 n ps0 r0 b0) (FunctionDef ds1 n ps1 r1 b1)
        \<and> stacks_nonempty c4 \<and> config c4 = config c0
        \<and> rule_a c4 = (none_return (state c0)
             \<and> \<not> own_raise (FunctionDef ds0 n ps0 r0 b0)
             \<and> \<not> own_return (FunctionDef ds0 n ps0 r0 b0)
             \<and> \<not> own_yield (FunctionDef ds0 n ps0 r0 b0))
        \<and> rule_b c4 n = rule_b c0 n \<and> rule_c c4 n = rule_c c0 n"
    if ok0: "stacks_nonempty c0"
      and v1: "visit_sequence visit_expr (visit_FunctionDef c0) ds0 = Inr (ds1, c1)"
      and v2: "visit_sequence visit_param c1 ps0 = Inr (ps1, c2)"
      and v3: "visit_optional visit_expr c2 r0 = Inr (r1, c3)"
      and v4: "visit_sequence visit_stmt c3 b0 = Inr (b1, c4)"
  proof -
    let ?f = "FunctionDef ds0 n ps0 r0 b0"
    from visit_funcdef_chain(1) [OF ok0 v1 v2 v3 v4, of n] obtain imps where
      c4: "c4 = after (own_return ?f) (own_raise ?f) (own_yield ?f) (lambda_in_funcdef ?f)
                  imps (visit_FunctionDef c0)"
      by blast
    have "stacks_nonempty c4" unfolding c4 by simp
    moreover have "config (visit_FunctionDef c0) = config c0"
      by (simp add: config_def visit_FunctionDef_def)
    then have "config c4 = config c0"
      unfolding c4 by simp
    moreover have "rule_a c4 = (none_return (state c0) \<and> \<not> own_raise ?f
        \<and> \<not> own_return ?f \<and> \<not> own_yield ?f)"
      unfolding c4
      by (simp add: rule_a_def last_after_visit_FunctionDef)
        (simp add: after_def visit_FunctionDef_def)
    moreover have "rule_b c4 n = rule_b c0 n" and "rule_c c4 n = rule_c c0 n"
      unfolding c4 by (simp_all add: rule_b_def rule_c_def after_def visit_FunctionDef_def)
    ultimately show ?thesis
      using visit_funcdef_chain(2) [OF ok0 v1 v2 v3 v4, of n] by blast
  qed
  from a b c d e f g show ?thesis by blast
qed

theorem leave_FunctionDef_return_policy_witness:
  "leave_FunctionDef
      \<lparr>state = \<lparr>annotate_optionals = [], annotate_named_params = [],
                 annotate_magics = True, annotate_imprecise_magics = True,
                 none_return = True, bool_param = False,
                 seen_return_statement = [False, False],
                 seen_raise_statement = [False, False],
                 seen_yield = [False, False], in_lambda = False\<rparr>,
        needed_imports = []\<rparr>
      (FunctionDef [] ''__len__'' [] None [])
      (FunctionDef [] ''__len__'' [] None [])
    = Inr (FunctionDef [] ''__len__'' [] (Some (Name ''None'')) [],
           \<lparr>state = \<lparr>annotate_optionals = [], annotate_named_params = [],
                 annotate_magics = True, annotate_imprecise_magics = True,
                 none_return = True, bool_param = False,
                 seen_return_statement = [False],
                 seen_raise_statement = [False],
                 seen_yield = [False], in_lambda = False\<rparr>,
        needed_imports = []\<rparr>)"
  using leave_FunctionDef_return_policy
    [of "\<lparr>state = \<lparr>annotate_optionals = [], annotate_named_params = [],
                 annotate_magics = True, annotate_imprecise_magics = True,
                 none_return = True, bool_param = False,
                 seen_return_statement = [False, False],
                 seen_raise_statement = [False, False],
                 seen_yield = [False, False], in_lambda = False\<rparr>,
        needed_imports = []\<rparr>" "[]" "''__len__''" "[]" "[]" "FunctionDef [] ''__len__'' [] None []"]
  by (simp add: stacks_nonempty_def rule_a_def pop_frames_def)

end
